theory Spec2Isabelle
  imports Main "HOL-Library.Sublist" "HOL-Library.AList"
begin

section \<open>String primitives of the host language\<close>

text \<open>
  The stages of xstream work on JavaScript strings through \<^verbatim>\<open>trim\<close>,
  \<^verbatim>\<open>indexOf\<close>, \<^verbatim>\<open>split\<close> and \<^verbatim>\<open>slice\<close>. A string is a list of code units;
  a \<^typ>\<open>char\<close> stands for one code unit in the range 0..255. The white space that
  \<^verbatim>\<open>trim\<close> strips is, in that range, TAB, LF, VT, FF, CR, SPACE and NBSP.
\<close>

definition is_ws :: "char \<Rightarrow> bool" where
  "is_ws c = (c = CHR 0x09 \<or> c = CHR 0x0A \<or> c = CHR 0x0B \<or> c = CHR 0x0C \<or>
              c = CHR 0x0D \<or> c = CHR 0x20 \<or> c = CHR 0xA0)"

definition trim :: "string \<Rightarrow> string" where
  "trim s = rev (dropWhile is_ws (rev (dropWhile is_ws s)))"

text \<open>
  \<^verbatim>\<open>s.indexOf(sep)\<close>: the position of the leftmost occurrence of \<open>sep\<close> in \<open>s\<close>;
  JavaScript's \<^verbatim>\<open>-1\<close> is \<open>None\<close>. The empty string occurs at position 0.
\<close>

fun indexOf :: "string \<Rightarrow> string \<Rightarrow> nat option" where
  "indexOf [] sep = (if sep = [] then Some 0 else None)"
| "indexOf (c # cs) sep =
     (if prefix sep (c # cs) then Some 0 else map_option Suc (indexOf cs sep))"

lemma indexOf_bound:
  "indexOf s sep = Some i \<Longrightarrow> i + length sep \<le> length s"
proof (induction s arbitrary: i)
  case Nil
  then show ?case by (simp split: if_splits)
next
  case (Cons c cs)
  show ?case
  proof (cases "prefix sep (c # cs)")
    case True
    with Cons.prems have "i = 0" by simp
    with prefix_length_le [OF True] show ?thesis by simp
  next
    case False
    with Cons.prems obtain j where "indexOf cs sep = Some j" "i = Suc j" by auto
    with Cons.IH show ?thesis by fastforce
  qed
qed

text \<open>
  \<^verbatim>\<open>s.split(sep)\<close> with a string separator: the pieces between the successive
  leftmost occurrences of \<open>sep\<close>, the search resuming right after each occurrence.
  An empty separator splits the string into its code units, and the empty string
  into no piece at all.
\<close>

function split_js :: "string \<Rightarrow> string \<Rightarrow> string list" where
  "split_js s sep =
     (if sep = [] then map (\<lambda>c. [c]) s
      else case indexOf s sep of
             None \<Rightarrow> [s]
           | Some i \<Rightarrow> take i s # split_js (drop (i + length sep) s) sep)"
  by pat_completeness auto
termination
proof (relation "measure (\<lambda>(s, sep). length s)")
  show "wf (measure (\<lambda>(s, sep). length s))" by simp
next
  fix s sep :: string and i
  assume ne: "sep \<noteq> []" and ix: "indexOf s sep = Some i"
  from indexOf_bound [OF ix] ne have "0 < length s" by (cases sep) auto
  moreover from ne have "0 < i + length sep" by simp
  ultimately show "((drop (i + length sep) s, sep), (s, sep)) \<in> measure (\<lambda>(s, sep). length s)"
    by simp
qed

declare split_js.simps [simp del]

section \<open>The part splitter (splitStream)\<close>

text \<open>
  Modelled from the spec: the constants module \<^verbatim>\<open>src/const\<close> is imported by every
  stage but is not among the sources. The spec gives the defaults as a double
  line break between events, a single line break between fields and a colon
  between key and value; the repository's tests expect the same three values.
\<close>

definition DEFAULT_STREAM_SEPARATOR :: string where
  "DEFAULT_STREAM_SEPARATOR = [CHR 0x0A, CHR 0x0A]"

definition DEFAULT_PART_SEPARATOR :: string where
  "DEFAULT_PART_SEPARATOR = [CHR 0x0A]"

definition DEFAULT_KV_SEPARATOR :: string where
  "DEFAULT_KV_SEPARATOR = '':''"

text \<open>
  The splitter keeps one variable, \<^verbatim>\<open>buffer\<close>, initially the empty string. It is
  \<open>None\<close> when the code has stored \<^verbatim>\<open>undefined\<close> in it, which
  \<^verbatim>\<open>parts[parts.length - 1]\<close> yields for an empty array of parts; \<^verbatim>\<open>buffer += chunk\<close>
  then concatenates the text \<^verbatim>\<open>undefined\<close> with the chunk.
\<close>

type_synonym buffer = "string option"

definition buffer_text :: "buffer \<Rightarrow> string" where
  "buffer_text b = (case b of None \<Rightarrow> ''undefined'' | Some s \<Rightarrow> s)"

text \<open>
  \<^verbatim>\<open>transform(chunk, controller)\<close>: returns the parts enqueued, in order, and the
  new buffer.
\<close>

definition splitStream_transform :: "string \<Rightarrow> buffer \<Rightarrow> string \<Rightarrow> string list \<times> buffer" where
  "splitStream_transform separator buffer chunk =
     (let buffer1 = buffer_text buffer @ chunk;
          parts = split_js buffer1 separator
      in (filter (\<lambda>part. trim part \<noteq> []) (butlast parts),
          if parts = [] then None else Some (last parts)))"

text \<open>
  \<^verbatim>\<open>flush(controller)\<close>: what is enqueued when the input ends. For an undefined
  buffer \<^verbatim>\<open>(buffer ?? '').trim()\<close> is the empty string and nothing is enqueued.
\<close>

definition splitStream_flush :: "buffer \<Rightarrow> string list" where
  "splitStream_flush buffer =
     (case buffer of
        None \<Rightarrow> []
      | Some b \<Rightarrow> if trim b \<noteq> [] then [b] else [])"

text \<open>
  The transform stream run on a whole input: every fragment goes through
  \<^verbatim>\<open>transform\<close> in arrival order, then \<^verbatim>\<open>flush\<close> runs once.
\<close>

fun splitStream_feed :: "string \<Rightarrow> buffer \<Rightarrow> string list \<Rightarrow> string list" where
  "splitStream_feed separator buffer [] = splitStream_flush buffer"
| "splitStream_feed separator buffer (chunk # chunks) =
     (case splitStream_transform separator buffer chunk of
        (out, buffer') \<Rightarrow> out @ splitStream_feed separator buffer' chunks)"

definition splitStream :: "string \<Rightarrow> string list \<Rightarrow> string list" where
  "splitStream separator chunks = splitStream_feed separator (Some []) chunks"

section \<open>The part parser (splitPart)\<close>

text \<open>
  An output record is a JavaScript object with string values. It is an association
  list with distinct keys; a field is looked up with \<^const>\<open>map_of\<close>, and
  \<^verbatim>\<open>Object.keys(o).length\<close> is the length of the list.
  \<^verbatim>\<open>{ ...acc, [key]: value }\<close> overwrites the field \<open>key\<close> or adds it. The order in which
  JavaScript enumerates the keys plays no role in the parser.
\<close>

type_synonym sse_output = "(string \<times> string) list"

text \<open>The reducer applied to every line of a part.\<close>

definition splitPart_line :: "string \<Rightarrow> sse_output \<Rightarrow> string \<Rightarrow> sse_output" where
  "splitPart_line kvSeparator acc line =
     (case indexOf line kvSeparator of
        None \<Rightarrow> acc
      | Some sepIndex \<Rightarrow>
          (let key = take sepIndex line
           in if trim key = [] then acc
              else (let val = trim (drop (sepIndex + 1) line)
                    in AList.update key val acc)))"

definition splitPart_event :: "string \<Rightarrow> string \<Rightarrow> string \<Rightarrow> sse_output" where
  "splitPart_event separator kvSeparator partChunk =
     foldl (splitPart_line kvSeparator) [] (split_js partChunk separator)"

text \<open>\<^verbatim>\<open>transform(partChunk, controller)\<close>: the records enqueued for one part.\<close>

definition splitPart_transform :: "string \<Rightarrow> string \<Rightarrow> string \<Rightarrow> sse_output list" where
  "splitPart_transform separator kvSeparator partChunk =
     (let sseEvent = splitPart_event separator kvSeparator partChunk
      in if length sseEvent > 0 then [sseEvent] else [])"

text \<open>The stage has no state and no flush: its output is the outputs for each part, in order.\<close>

definition splitPart :: "string \<Rightarrow> string \<Rightarrow> string list \<Rightarrow> sse_output list" where
  "splitPart separator kvSeparator parts =
     concat (map (splitPart_transform separator kvSeparator) parts)"

section \<open>XStream: the pipeline and its asynchronous iterator\<close>

text \<open>
  The values that travel through the final stream. A custom transform stream may
  produce any JavaScript value; the default pipeline produces records. Numbers are
  the integer-valued ones.
\<close>

datatype js_value =
    JUndefined
  | JNull
  | JBoolean bool
  | JNumber int
  | JString string
  | JObject sse_output

text \<open>The test of \<^verbatim>\<open>if (value)\<close>.\<close>

fun truthy :: "js_value \<Rightarrow> bool" where
  "truthy JUndefined = False"
| "truthy JNull = False"
| "truthy (JBoolean b) = b"
| "truthy (JNumber n) = (n \<noteq> 0)"
| "truthy (JString s) = (s \<noteq> [])"
| "truthy (JObject r) = True"

text \<open>
  Errors, and how a call ends: it returns (a promise resolves), or it throws (a
  promise rejects).
\<close>

datatype js_error = JsError string

datatype outcome = Returns | Throws js_error

text \<open>
  The options of \<^verbatim>\<open>XStream\<close>. A callback field is \<open>None\<close> when the caller supplied
  no callback, and \<^verbatim>\<open>cb?.()\<close> then does nothing. A supplied callback is given by how
  its call ends. \<^verbatim>\<open>onSSEStart\<close>, \<^verbatim>\<open>onSSEComplete\<close> and \<^verbatim>\<open>onSSEAbort\<close> are called at
  most once in a session; \<^verbatim>\<open>onSSEOutput\<close> is called on many passes of the loop, and
  how its call ends may depend on the pass as well as on the value; \<^verbatim>\<open>onSSEError\<close>
  is given the error. A custom transform stream is the function from the decoded
  fragments to the values it enqueues. A separator left out is \<open>None\<close> and takes
  its default.
\<close>

record xstream_options =
  transformStream :: "(string list \<Rightarrow> js_value list) option"
  onSSEOutput :: "(nat \<Rightarrow> js_value \<Rightarrow> outcome) option"
  onSSEError :: "(js_error \<Rightarrow> outcome) option"
  onSSEComplete :: "outcome option"
  onSSEAbort :: "outcome option"
  onSSEStart :: "outcome option"
  STREAM_SEPARATOR :: "string option"
  PART_SEPARATOR :: "string option"
  KV_SEPARATOR :: "string option"

definition or_default :: "'a option \<Rightarrow> 'a \<Rightarrow> 'a" where
  "or_default x d = (case x of None \<Rightarrow> d | Some v \<Rightarrow> v)"

text \<open>
  The values of \<^verbatim>\<open>processedStream\<close> for an input that is delivered in full and then
  closed. \<open>decoderStream\<close> is the platform's \<^verbatim>\<open>TextDecoderStream\<close>, from the chunks
  of bytes to the decoded fragments.
\<close>

definition processedStream ::
  "('b list \<Rightarrow> string list) \<Rightarrow> xstream_options \<Rightarrow> 'b list \<Rightarrow> js_value list" where
  "processedStream decoderStream options readableStream =
     (case transformStream options of
        Some custom \<Rightarrow> custom (decoderStream readableStream)
      | None \<Rightarrow>
          map JObject
            (splitPart (or_default (PART_SEPARATOR options) DEFAULT_PART_SEPARATOR)
               (or_default (KV_SEPARATOR options) DEFAULT_KV_SEPARATOR)
               (splitStream (or_default (STREAM_SEPARATOR options) DEFAULT_STREAM_SEPARATOR)
                  (decoderStream readableStream))))"

text \<open>
  \<^verbatim>\<open>XStream(options, signal)\<close> first checks its \<^verbatim>\<open>readableStream\<close> argument, which is
  either no \<^verbatim>\<open>ReadableStream\<close> at all or a stream of chunks, and throws a
  \<^verbatim>\<open>TypeError\<close> for the former.
\<close>

datatype 'b readable_arg = NotAReadableStream | ReadableStream "'b list"

datatype type_error = TypeError

definition XStream ::
  "('b list \<Rightarrow> string list) \<Rightarrow> xstream_options \<Rightarrow> 'b readable_arg
     \<Rightarrow> type_error + js_value list" where
  "XStream decoderStream options readableStream =
     (case readableStream of
        NotAReadableStream \<Rightarrow> Inl TypeError
      | ReadableStream chunks \<Rightarrow> Inr (processedStream decoderStream options chunks))"

text \<open>
  One iteration session, begun when \<^verbatim>\<open>getReader\<close> has given the session the reader
  (the spec's single consumer). The reader answers each \<^verbatim>\<open>read()\<close> with a value,
  with \<^verbatim>\<open>done\<close>, or by rejecting; the session is run against the list of the
  answers the reader will give, and a read beyond that list never settles.
\<close>

datatype read_result = ReadValue js_value | ReadDone | ReadRejects js_error

text \<open>
  What a session does, in the order it happens: it takes the reader, calls a
  callback, gets the answer to a read, asks the reader to cancel, yields a value to
  the consumer, enters its \<^verbatim>\<open>catch\<close> clause with an error, releases the lock.
  The release does not throw: no read is pending when the \<^verbatim>\<open>finally\<close> clause runs.
\<close>

datatype event =
    GetReader
  | OnStart
  | Pulled read_result
  | OnOutput js_value
  | Yield js_value
  | CancelReader
  | OnAbort
  | OnComplete
  | Caught js_error
  | OnError js_error
  | ReleaseLock

text \<open>
  How a block of the generator ends: normally (also through \<^verbatim>\<open>break\<close>), by a
  thrown error, by the consumer leaving its loop at a \<^verbatim>\<open>yield\<close> (the generator's
  \<^verbatim>\<open>return\<close>), or not at all, when it awaits a read that never settles.
\<close>

datatype completion = Normal | Throw js_error | Return | Pending

definition ended :: "outcome \<Rightarrow> completion" where
  "ended out = (case out of Returns \<Rightarrow> Normal | Throws error \<Rightarrow> Throw error)"

text \<open>
  \<^verbatim>\<open>cb?.(...)\<close>: the event of the call, when the callback is supplied, and how the
  call ends; nothing is called and nothing is thrown for a missing callback.
\<close>

definition calls :: "'a option \<Rightarrow> event \<Rightarrow> event list" where
  "calls cb ev = (case cb of None \<Rightarrow> [] | Some f \<Rightarrow> [ev])"

definition outcome_of :: "outcome option \<Rightarrow> outcome" where
  "outcome_of cb = (case cb of None \<Rightarrow> Returns | Some out \<Rightarrow> out)"

definition output_call :: "xstream_options \<Rightarrow> nat \<Rightarrow> js_value \<Rightarrow> outcome" where
  "output_call options n v = outcome_of (map_option (\<lambda>cb. cb n v) (onSSEOutput options))"

definition error_call :: "xstream_options \<Rightarrow> js_error \<Rightarrow> outcome" where
  "error_call options error = outcome_of (map_option (\<lambda>cb. cb error) (onSSEError options))"

text \<open>
  \<^verbatim>\<open>signal?.aborted\<close> at the \<open>n\<close>-th pass through the loop, counted from 0; there
  may be no signal.
\<close>

definition aborted :: "(nat \<Rightarrow> bool) option \<Rightarrow> nat \<Rightarrow> bool" where
  "aborted signal n = (case signal of None \<Rightarrow> False | Some s \<Rightarrow> s n)"

text \<open>
  The branch taken when the signal is seen aborted: \<^verbatim>\<open>await reader.cancel()\<close>, then
  the abort callback, then \<^verbatim>\<open>break\<close>. \<open>cancel\<close> is how the reader settles the
  cancellation request: a stream that has errored rejects it, and the abort
  callback is then not reached.
\<close>

definition abort_branch :: "xstream_options \<Rightarrow> outcome \<Rightarrow> event list \<times> completion" where
  "abort_branch options cancel =
     (case cancel of
        Throws error \<Rightarrow> ([CancelReader], Throw error)
      | Returns \<Rightarrow>
          (CancelReader # calls (onSSEAbort options) OnAbort,
           ended (outcome_of (onSSEAbort options))))"

text \<open>
  The \<^verbatim>\<open>while (true)\<close> loop, from its \<open>n\<close>-th pass on. \<open>leave\<close> is the consumer:
  \<open>Some k\<close> when its loop body leaves the loop on the value it receives after \<open>k\<close>
  others, \<open>None\<close> when it takes every value.
\<close>

fun while_loop ::
  "xstream_options \<Rightarrow> (nat \<Rightarrow> bool) option \<Rightarrow> outcome \<Rightarrow> nat option \<Rightarrow> nat
     \<Rightarrow> read_result list \<Rightarrow> event list \<times> completion" where
  "while_loop options signal cancel leave n [] =
     (if aborted signal n then abort_branch options cancel else ([], Pending))"
| "while_loop options signal cancel leave n (r # reads) =
     (if aborted signal n then abort_branch options cancel
      else case r of
             ReadDone \<Rightarrow>
               (Pulled ReadDone # calls (onSSEComplete options) OnComplete,
                ended (outcome_of (onSSEComplete options)))
           | ReadRejects error \<Rightarrow> ([Pulled (ReadRejects error)], Throw error)
           | ReadValue v \<Rightarrow>
               if truthy v then
                 (case output_call options n v of
                    Throws error \<Rightarrow>
                      (Pulled (ReadValue v) # calls (onSSEOutput options) (OnOutput v),
                       Throw error)
                  | Returns \<Rightarrow>
                      (case leave of
                         Some 0 \<Rightarrow>
                           (Pulled (ReadValue v) # calls (onSSEOutput options) (OnOutput v) @
                              [Yield v],
                            Return)
                       | _ \<Rightarrow>
                          (case while_loop options signal cancel (map_option (\<lambda>k. k - 1) leave)
                                  (Suc n) reads of
                             (evs, c) \<Rightarrow>
                               (Pulled (ReadValue v) # calls (onSSEOutput options) (OnOutput v) @
                                  [Yield v] @ evs,
                                c))))
               else
                 (case while_loop options signal cancel leave (Suc n) reads of
                    (evs, c) \<Rightarrow> (Pulled (ReadValue v) # evs, c)))"

text \<open>The \<^verbatim>\<open>try\<close> block: the start callback, then the loop.\<close>

definition try_block ::
  "xstream_options \<Rightarrow> (nat \<Rightarrow> bool) option \<Rightarrow> outcome \<Rightarrow> nat option \<Rightarrow> read_result list
     \<Rightarrow> event list \<times> completion" where
  "try_block options signal cancel leave reads =
     (case outcome_of (onSSEStart options) of
        Throws error \<Rightarrow> (calls (onSSEStart options) OnStart, Throw error)
      | Returns \<Rightarrow>
          (case while_loop options signal cancel leave 0 reads of
             (evs, c) \<Rightarrow> (calls (onSSEStart options) OnStart @ evs, c)))"

text \<open>
  The \<^verbatim>\<open>catch\<close> clause: it calls the error callback with the error caught and
  throws nothing itself; it ends the way that call ends.
\<close>

definition catch_clause :: "xstream_options \<Rightarrow> js_error \<Rightarrow> event list \<times> completion" where
  "catch_clause options error =
     (Caught error # calls (onSSEError options) (OnError error), ended (error_call options error))"

text \<open>
  The generator function: the reader is taken, the \<^verbatim>\<open>try\<close> statement runs, and,
  unless it is still waiting for a read, the \<^verbatim>\<open>finally\<close> clause releases the lock.
  The completion returned is what the consumer's \<^verbatim>\<open>for await\<close> observes.
\<close>

definition asyncIterator ::
  "xstream_options \<Rightarrow> (nat \<Rightarrow> bool) option \<Rightarrow> outcome \<Rightarrow> nat option \<Rightarrow> read_result list
     \<Rightarrow> event list \<times> completion" where
  "asyncIterator options signal cancel leave reads =
     (case try_block options signal cancel leave reads of
        (evs, Pending) \<Rightarrow> (GetReader # evs, Pending)
      | (evs, Throw error) \<Rightarrow>
          (case catch_clause options error of
             (cevs, c) \<Rightarrow> (GetReader # evs @ cevs @ [ReleaseLock], c))
      | (evs, c) \<Rightarrow> (GetReader # evs @ [ReleaseLock], c))"

text \<open>The values a session hands to its consumer.\<close>

fun yielded :: "event list \<Rightarrow> js_value list" where
  "yielded [] = []"
| "yielded (Yield v # evs) = v # yielded evs"
| "yielded (ev # evs) = yielded evs"

section \<open>Notions used to state the properties\<close>

text \<open>
  What one pass of the loop does with a value it has read, when the output callback
  returns and the consumer stays: a truthy value goes to the output callback and is
  yielded, a falsy one is dropped.
\<close>

definition pass :: "xstream_options \<Rightarrow> js_value \<Rightarrow> event list" where
  "pass options v =
     Pulled (ReadValue v) #
     (if truthy v then calls (onSSEOutput options) (OnOutput v) @ [Yield v] else [])"

text \<open>
  The place of an event in a session. The terminal callbacks are abort, complete and
  error. A session leaves its running state at the answer \<^verbatim>\<open>done\<close>, at a read that
  rejects, at the cancellation request, or when an error is caught.
\<close>

fun phase :: "event \<Rightarrow> nat" where
  "phase GetReader = 0"
| "phase OnStart = 1"
| "phase (Pulled (ReadValue v)) = 2"
| "phase (OnOutput v) = 2"
| "phase (Yield v) = 2"
| "phase (Pulled ReadDone) = 3"
| "phase (Pulled (ReadRejects e)) = 3"
| "phase CancelReader = 3"
| "phase OnAbort = 4"
| "phase OnComplete = 4"
| "phase (Caught e) = 5"
| "phase (OnError e) = 6"
| "phase ReleaseLock = 7"

fun terminal :: "event \<Rightarrow> bool" where
  "terminal OnAbort = True"
| "terminal OnComplete = True"
| "terminal (OnError e) = True"
| "terminal ev = False"

fun leaves_running :: "event \<Rightarrow> bool" where
  "leaves_running (Pulled ReadDone) = True"
| "leaves_running (Pulled (ReadRejects e)) = True"
| "leaves_running CancelReader = True"
| "leaves_running (Caught e) = True"
| "leaves_running ev = False"

text \<open>
  What follows a call that ended a session's running state: the \<^verbatim>\<open>catch\<close> clause
  when the call has thrown, then the release of the lock.
\<close>

definition after_call :: "xstream_options \<Rightarrow> outcome \<Rightarrow> event list" where
  "after_call options out =
     (case out of Returns \<Rightarrow> [] | Throws error \<Rightarrow> fst (catch_clause options error)) @
     [ReleaseLock]"

text \<open>
  Options with every callback supplied and returning, no custom transform and the
  default separators.
\<close>

definition all_callbacks :: xstream_options where
  "all_callbacks =
     \<lparr>transformStream = None, onSSEOutput = Some (\<lambda>n v. Returns),
      onSSEError = Some (\<lambda>e. Returns), onSSEComplete = Some Returns,
      onSSEAbort = Some Returns, onSSEStart = Some Returns, STREAM_SEPARATOR = None,
      PART_SEPARATOR = None, KV_SEPARATOR = None\<rparr>"

text \<open>
  The key-value pairs parseable from a part, in the words of the spec's section on
  the part parser: split the part into lines on the field delimiter; in each line
  locate the first occurrence of the key-value delimiter; a line without one, or with
  a key that is empty or white space only, gives no pair; otherwise the key is the
  text before the delimiter, as it is, and the value is the text after the delimiter,
  trimmed.
\<close>

definition spec_pair :: "string \<Rightarrow> string \<Rightarrow> (string \<times> string) option" where
  "spec_pair kv line =
     (case indexOf line kv of
        None \<Rightarrow> None
      | Some i \<Rightarrow>
          if list_all is_ws (take i line) then None
          else Some (take i line, trim (drop (i + length kv) line)))"

definition spec_pairs :: "string \<Rightarrow> string \<Rightarrow> string \<Rightarrow> (string \<times> string) list" where
  "spec_pairs sep kv part = List.map_filter (spec_pair kv) (split_js part sep)"

section \<open>Facts about searching and splitting\<close>

lemma indexOf_append:
  "indexOf s sep = Some i \<Longrightarrow> indexOf (s @ t) sep = Some i"
proof (induction s arbitrary: i)
  case Nil
  then show ?case by (cases t) (auto split: if_splits)
next
  case (Cons c cs)
  show ?case
  proof (cases "prefix sep (c # cs)")
    case True
    then have "prefix sep ((c # cs) @ t)" by (rule prefix_prefix)
    with True Cons.prems show ?thesis by simp
  next
    case False
    with Cons.prems obtain j where j: "indexOf cs sep = Some j" "i = Suc j" by auto
    have "\<not> prefix sep ((c # cs) @ t)"
    proof
      assume p: "prefix sep ((c # cs) @ t)"
      from indexOf_bound [OF j(1)] have "length sep \<le> length (c # cs)" by simp
      with p have "prefix sep (c # cs)"
        by (metis prefix_length_prefix prefixI)
      with False show False ..
    qed
    with j Cons.IH [OF j(1)] show ?thesis by simp
  qed
qed

lemma indexOf_take:
  "sep \<noteq> [] \<Longrightarrow> indexOf s sep = Some i \<Longrightarrow> indexOf (take i s) sep = None"
proof (induction s arbitrary: i)
  case Nil
  then show ?case by simp
next
  case (Cons c cs)
  show ?case
  proof (cases "prefix sep (c # cs)")
    case True
    with Cons.prems show ?thesis by simp
  next
    case False
    with Cons.prems obtain j where j: "indexOf cs sep = Some j" "i = Suc j" by auto
    have "prefix (c # take j cs) (c # cs)" by (simp add: take_is_prefix)
    with False have "\<not> prefix sep (c # take j cs)"
      using prefix_order.trans by blast
    with j Cons.IH [OF Cons.prems(1) j(1)] show ?thesis by simp
  qed
qed

lemma split_js_None: "sep \<noteq> [] \<Longrightarrow> indexOf s sep = None \<Longrightarrow> split_js s sep = [s]"
  by (subst split_js.simps) simp

lemma split_js_Some:
  "sep \<noteq> [] \<Longrightarrow> indexOf s sep = Some i \<Longrightarrow>
     split_js s sep = take i s # split_js (drop (i + length sep) s) sep"
  by (subst split_js.simps) simp

lemma split_js_not_Nil: "sep \<noteq> [] \<Longrightarrow> split_js s sep \<noteq> []"
  by (subst split_js.simps) (simp split: option.splits)

lemma split_js_append:
  "sep \<noteq> [] \<Longrightarrow>
     split_js (s @ t) sep = butlast (split_js s sep) @ split_js (last (split_js s sep) @ t) sep"
proof (induction s sep rule: split_js.induct)
  case (1 s sep)
  show ?case
  proof (cases "indexOf s sep")
    case None
    with "1.prems" show ?thesis by (simp add: split_js_None)
  next
    case (Some i)
    let ?r = "drop (i + length sep) s"
    from indexOf_bound [OF Some] have le: "i + length sep \<le> length s" .
    have "split_js (s @ t) sep = take i (s @ t) # split_js (drop (i + length sep) (s @ t)) sep"
      using "1.prems" indexOf_append [OF Some] by (rule split_js_Some)
    also have "\<dots> = take i s # split_js (?r @ t) sep" using le by simp
    also have "split_js (?r @ t) sep =
        butlast (split_js ?r sep) @ split_js (last (split_js ?r sep) @ t) sep"
      using "1.IH" [OF "1.prems" Some] "1.prems" by simp
    finally show ?thesis
      using "1.prems" Some by (simp add: split_js_Some split_js_not_Nil)
  qed
qed

lemma indexOf_pieces:
  "sep \<noteq> [] \<Longrightarrow> p \<in> set (split_js s sep) \<Longrightarrow> indexOf p sep = None"
proof (induction s sep rule: split_js.induct)
  case (1 s sep)
  show ?case
  proof (cases "indexOf s sep")
    case None
    with "1.prems" show ?thesis by (simp add: split_js_None)
  next
    case (Some i)
    with "1.prems" have "p = take i s \<or> p \<in> set (split_js (drop (i + length sep) s) sep)"
      by (simp add: split_js_Some)
    then show ?thesis
      using "1.IH" [OF "1.prems"(1) Some] "1.prems"(1) indexOf_take [OF "1.prems"(1) Some]
      by blast
  qed
qed

lemma indexOf_None_iff: "indexOf s sep = None \<longleftrightarrow> \<not> sublist sep s"
  by (induction s) (auto simp: sublist_Cons_right)

text \<open>\<^verbatim>\<open>trim\<close> leaves nothing exactly of the strings made of white space only.\<close>

lemma trim_Nil_iff: "trim s = [] \<longleftrightarrow> (\<forall>c \<in> set s. is_ws c)"
proof -
  have "(\<forall>x \<in> set (dropWhile is_ws s). is_ws x) \<longleftrightarrow> (\<forall>x \<in> set s. is_ws x)"
  proof
    assume all: "\<forall>x \<in> set (dropWhile is_ws s). is_ws x"
    have "dropWhile is_ws s = []"
    proof (rule ccontr)
      assume ne: "dropWhile is_ws s \<noteq> []"
      then have "\<not> is_ws (hd (dropWhile is_ws s))" by (rule hd_dropWhile)
      moreover from ne have "hd (dropWhile is_ws s) \<in> set (dropWhile is_ws s)" by simp
      ultimately show False using all by blast
    qed
    then show "\<forall>x \<in> set s. is_ws x" by simp
  next
    assume "\<forall>x \<in> set s. is_ws x"
    then show "\<forall>x \<in> set (dropWhile is_ws s). is_ws x" by (blast dest: set_dropWhileD)
  qed
  then show ?thesis by (simp add: trim_def)
qed

section \<open>The splitter as a function of the whole text\<close>

text \<open>
  With a non-empty separator, what the splitter emits for a sequence of fragments,
  flush included, is the pieces of the concatenated text that are not white space only.
\<close>

lemma splitStream_feed_text:
  "sep \<noteq> [] \<Longrightarrow> indexOf b sep = None \<Longrightarrow>
     splitStream_feed sep (Some b) chunks =
       filter (\<lambda>p. trim p \<noteq> []) (split_js (b @ concat chunks) sep)"
proof (induction chunks arbitrary: b)
  case Nil
  then show ?case by (simp add: split_js_None splitStream_flush_def)
next
  case (Cons c cs)
  let ?parts = "split_js (b @ c) sep"
  from Cons.prems(1) have ne: "?parts \<noteq> []" by (rule split_js_not_Nil)
  then have "last ?parts \<in> set ?parts" by simp
  with Cons.prems(1) have "indexOf (last ?parts) sep = None" by (rule indexOf_pieces)
  with Cons.IH [OF Cons.prems(1)]
  have "splitStream_feed sep (Some (last ?parts)) cs =
          filter (\<lambda>p. trim p \<noteq> []) (split_js (last ?parts @ concat cs) sep)" .
  moreover have "split_js (b @ concat (c # cs)) sep =
          butlast ?parts @ split_js (last ?parts @ concat cs) sep"
    using split_js_append [OF Cons.prems(1), of "b @ c" "concat cs"] by simp
  ultimately show ?case
    using ne by (simp add: splitStream_transform_def buffer_text_def Let_def)
qed

lemma splitStream_text:
  "sep \<noteq> [] \<Longrightarrow> splitStream sep chunks = filter (\<lambda>p. trim p \<noteq> []) (split_js (concat chunks) sep)"
  using splitStream_feed_text [of sep "[]" chunks] by (simp add: splitStream_def)

section \<open>Properties of the part splitter\<close>

text \<open>
  Claim C4. For every text and every non-empty delimiter, the splitter emits the
  same sequence of parts, end-of-input flush included, whether the text arrives as
  one fragment or cut into any sequence of fragments.
\<close>

theorem splitStream_rechunking:
  assumes "separator \<noteq> []" and "concat fragments = text"
  shows "splitStream separator fragments = splitStream separator [text]"
  using assms by (simp add: splitStream_text)

theorem splitStream_rechunking_witness:
  "splitStream ''\<newline>\<newline>'' [''a\<newline>'', ''\<newline>b  '', '' \<newline>\<newline>c''] =
     splitStream ''\<newline>\<newline>'' [''a\<newline>\<newline>b   \<newline>\<newline>c'']
   \<and> splitStream ''\<newline>\<newline>'' [''a\<newline>'', ''\<newline>b  '', '' \<newline>\<newline>c''] =
       [''a'', ''b   '', ''c'']"
proof -
  have h1: "''\<newline>\<newline>'' \<noteq> []" by simp
  have h2: "concat [''a\<newline>'', ''\<newline>b  '', '' \<newline>\<newline>c''] = ''a\<newline>\<newline>b   \<newline>\<newline>c''"
    by simp
  have "splitStream ''\<newline>\<newline>'' [''a\<newline>'', ''\<newline>b  '', '' \<newline>\<newline>c''] =
          [''a'', ''b   '', ''c'']"
    by code_simp
  with splitStream_rechunking [OF h1 h2] show ?thesis by simp
qed

text \<open>
  Claim C8. At end-of-input the splitter emits its remaining buffer as one final
  part exactly when the buffer is non-empty and not made of white space only, and
  it emits it as it is, trailing white space included: the input
  \<^verbatim>\<open>part1\n\npart2\n\<close> with the default delimiter gives the parts \<^verbatim>\<open>part1\<close> and
  \<^verbatim>\<open>part2\n\<close>, and a remainder of white space only is dropped.
\<close>

theorem splitStream_flush_remainder:
  "splitStream_flush buffer =
     (case buffer of
        None \<Rightarrow> []
      | Some b \<Rightarrow> if b \<noteq> [] \<and> (\<exists>c \<in> set b. \<not> is_ws c) then [b] else [])
   \<and> splitStream DEFAULT_STREAM_SEPARATOR [''part1\<newline>\<newline>part2\<newline>''] =
       [''part1'', ''part2\<newline>'']
   \<and> splitStream DEFAULT_STREAM_SEPARATOR [''part1\<newline>\<newline> \<newline>''] = [''part1'']"
proof -
  have "splitStream_flush buffer =
     (case buffer of
        None \<Rightarrow> []
      | Some b \<Rightarrow> if b \<noteq> [] \<and> (\<exists>c \<in> set b. \<not> is_ws c) then [b] else [])"
    by (auto simp: splitStream_flush_def trim_Nil_iff split: option.splits)
  moreover have "splitStream DEFAULT_STREAM_SEPARATOR [''part1\<newline>\<newline>part2\<newline>''] =
      [''part1'', ''part2\<newline>'']"
    by code_simp
  moreover have "splitStream DEFAULT_STREAM_SEPARATOR [''part1\<newline>\<newline> \<newline>''] = [''part1'']"
    by code_simp
  ultimately show ?thesis by simp
qed

theorem splitStream_flush_remainder_witness:
  "splitStream_flush (Some ''part2\<newline>'') = [''part2\<newline>'']
   \<and> splitStream_flush (Some '' \<newline>'') = []"
  using splitStream_flush_remainder [of "Some ''part2\<newline>''"]
    splitStream_flush_remainder [of "Some '' \<newline>''"]
  by (simp add: is_ws_def)

text \<open>
  Claim C9. For every sequence of fragments and every non-empty delimiter, no string
  the splitter emits, mid-stream or by the end-of-input flush, contains an
  occurrence of the delimiter.
\<close>

theorem splitStream_emits_no_separator:
  assumes "separator \<noteq> []" and "part \<in> set (splitStream separator fragments)"
  shows "\<not> sublist separator part"
proof -
  from assms have "part \<in> set (split_js (concat fragments) separator)"
    by (simp add: splitStream_text)
  with assms(1) have "indexOf part separator = None" by (rule indexOf_pieces)
  then show ?thesis by (simp add: indexOf_None_iff)
qed

theorem splitStream_emits_no_separator_witness:
  "''ab'' \<in> set (splitStream ''--'' [''ab-'', ''-c-d'']) \<and> \<not> sublist ''--'' ''ab''"
proof -
  have h1: "''--'' \<noteq> []" by simp
  have h2: "''ab'' \<in> set (splitStream ''--'' [''ab-'', ''-c-d''])" by code_simp
  from splitStream_emits_no_separator [OF h1 h2] h2 show ?thesis by simp
qed

section \<open>Facts about the parser and the iteration loop\<close>

lemma splitPart_records:
  "splitPart P K parts = filter (\<lambda>r. r \<noteq> []) (map (splitPart_event P K) parts)"
  by (induction parts) (simp_all add: splitPart_def splitPart_transform_def Let_def)

text \<open>
  The record folded from a part against the pairs parseable from it: the keys are
  the same for every key-value separator, and so are the values for a separator of at
  most one code unit.
\<close>

lemma list_all_is_ws: "list_all is_ws s \<longleftrightarrow> trim s = []"
  by (simp add: trim_Nil_iff list_all_iff)

lemma splitPart_line_keys:
  "fst ` set (splitPart_line kv acc line) =
     fst ` set acc \<union> (case spec_pair kv line of None \<Rightarrow> {} | Some p \<Rightarrow> {fst p})"
  by (auto simp: splitPart_line_def spec_pair_def list_all_is_ws Let_def AList.dom_update
      split: option.splits)

lemma splitPart_line_distinct:
  "distinct (map fst acc) \<Longrightarrow> distinct (map fst (splitPart_line kv acc line))"
  by (simp add: splitPart_line_def Let_def AList.distinct_update split: option.splits)

lemma splitPart_line_map_of:
  assumes "length kv \<le> 1"
  shows "map_of (splitPart_line kv acc line) =
     (case spec_pair kv line of None \<Rightarrow> map_of acc | Some p \<Rightarrow> map_of (p # acc))"
proof (cases "indexOf line kv")
  case None
  then show ?thesis by (simp add: splitPart_line_def spec_pair_def)
next
  case (Some i)
  show ?thesis
  proof (cases "kv = []")
    case True
    with Some have "i = 0" by (cases line) simp_all
    with Some show ?thesis by (simp add: splitPart_line_def spec_pair_def trim_def)
  next
    case False
    with assms have "length kv = 1" by (cases kv) simp_all
    with Some show ?thesis
      by (auto simp: splitPart_line_def spec_pair_def list_all_is_ws Let_def AList.update_conv')
  qed
qed

lemma foldl_keys:
  "fst ` set (foldl (splitPart_line kv) acc lines) =
     fst ` set acc \<union> fst ` set (List.map_filter (spec_pair kv) lines)"
proof (induction lines arbitrary: acc)
  case Nil
  show ?case by (simp add: List.map_filter_simps)
next
  case (Cons l ls)
  show ?case
    by (cases "spec_pair kv l")
      (auto simp: Cons.IH splitPart_line_keys List.map_filter_simps)
qed

lemma foldl_distinct:
  "distinct (map fst acc) \<Longrightarrow> distinct (map fst (foldl (splitPart_line kv) acc lines))"
  by (induction lines arbitrary: acc) (simp_all add: splitPart_line_distinct)

lemma map_of_append_cong: "map_of xs = map_of ys \<Longrightarrow> map_of (zs @ xs) = map_of (zs @ ys)"
  by (simp add: map_of_append)

lemma foldl_map_of:
  assumes "length kv \<le> 1"
  shows "map_of (foldl (splitPart_line kv) acc lines) =
     map_of (rev (List.map_filter (spec_pair kv) lines) @ acc)"
proof (induction lines arbitrary: acc)
  case Nil
  show ?case by (simp add: List.map_filter_simps)
next
  case (Cons l ls)
  show ?case
  proof (cases "spec_pair kv l")
    case None
    with splitPart_line_map_of [OF assms, of acc l]
    have "map_of (splitPart_line kv acc l) = map_of acc" by simp
    then have "map_of (rev (List.map_filter (spec_pair kv) ls) @ splitPart_line kv acc l) =
               map_of (rev (List.map_filter (spec_pair kv) ls) @ acc)"
      by (rule map_of_append_cong)
    with None show ?thesis by (simp add: Cons.IH List.map_filter_simps)
  next
    case (Some p)
    with splitPart_line_map_of [OF assms, of acc l]
    have "map_of (splitPart_line kv acc l) = map_of (p # acc)" by simp
    then have "map_of (rev (List.map_filter (spec_pair kv) ls) @ splitPart_line kv acc l) =
               map_of (rev (List.map_filter (spec_pair kv) ls) @ p # acc)"
      by (rule map_of_append_cong)
    with Some show ?thesis by (simp add: Cons.IH List.map_filter_simps)
  qed
qed

lemma splitPart_event_keys:
  "fst ` set (splitPart_event sep kv part) = fst ` set (spec_pairs sep kv part)"
  by (simp add: splitPart_event_def spec_pairs_def foldl_keys)

lemma splitPart_event_Nil: "splitPart_event sep kv part = [] \<longleftrightarrow> spec_pairs sep kv part = []"
proof -
  have "splitPart_event sep kv part = [] \<longleftrightarrow> fst ` set (splitPart_event sep kv part) = {}" by simp
  also have "\<dots> \<longleftrightarrow> fst ` set (spec_pairs sep kv part) = {}" by (simp only: splitPart_event_keys)
  also have "\<dots> \<longleftrightarrow> spec_pairs sep kv part = []" by simp
  finally show ?thesis .
qed

lemma splitPart_event_spec:
  "distinct (map fst (splitPart_event sep kv part)) \<and>
   fst ` set (splitPart_event sep kv part) = fst ` set (spec_pairs sep kv part) \<and>
   (length kv \<le> 1 \<longrightarrow> map_of (splitPart_event sep kv part) = map_of (rev (spec_pairs sep kv part)))"
  using foldl_distinct [of "[]" kv "split_js part sep"]
    foldl_map_of [of kv "[]" "split_js part sep"] splitPart_event_keys [of sep kv part]
  by (simp add: splitPart_event_def spec_pairs_def)

lemma splitPart_parts:
  "splitPart P K parts = map (splitPart_event P K) (filter (\<lambda>p. spec_pairs P K p \<noteq> []) parts)"
  by (induction parts) (simp_all add: splitPart_records splitPart_event_Nil)

text \<open>
  With a key-value separator of one code unit, the value of a line is the text after
  the separator, trimmed.
\<close>

lemma splitPart_line_one_unit:
  assumes "length kv = 1"
  shows "splitPart_line kv acc line =
     (case indexOf line kv of
        None \<Rightarrow> acc
      | Some i \<Rightarrow>
          if \<forall>c \<in> set (take i line). is_ws c then acc
          else AList.update (take i line) (trim (drop (i + length kv) line)) acc)"
  using assms by (simp add: splitPart_line_def trim_Nil_iff Let_def split: option.splits)

text \<open>
  A run of values read while no abort is seen, the output callback returns and the
  consumer stays: each truthy value is passed on, each falsy one is skipped, and the
  loop goes on with the reads that follow.
\<close>

lemma yielded_append: "yielded (xs @ ys) = yielded xs @ yielded ys"
  by (induction xs rule: yielded.induct) simp_all

lemma while_loop_pass:
  assumes "\<not> aborted signal n" and "truthy v \<longrightarrow> output_call options n v = Returns"
    and "truthy v \<longrightarrow> leave \<noteq> Some 0"
  shows "while_loop options signal cancel leave n (ReadValue v # reads) =
     apfst ((@) (pass options v))
       (while_loop options signal cancel
          (map_option (\<lambda>k. k - (if truthy v then 1 else 0)) leave) (Suc n) reads)"
proof (cases "truthy v")
  case False
  have "map_option (\<lambda>k. k - (0::nat)) leave = leave" by (cases leave) simp_all
  with False assms(1) show ?thesis by (simp add: pass_def split: prod.splits)
next
  case True
  show ?thesis
  proof (cases leave)
    case None
    with assms True show ?thesis by (simp add: pass_def split: prod.splits)
  next
    case (Some k)
    with assms True obtain j where "k = Suc j" by (cases k) auto
    with Some assms True show ?thesis by (simp add: pass_def split: prod.splits)
  qed
qed

lemma while_loop_values:
  assumes "\<forall>i < length vs. \<not> aborted signal (n + i)"
    and "\<forall>k. leave = Some k \<longrightarrow> length (filter truthy vs) \<le> k"
    and "\<forall>i < length vs. truthy (vs ! i) \<longrightarrow> output_call options (n + i) (vs ! i) = Returns"
  shows "while_loop options signal cancel leave n (map ReadValue vs @ rest) =
     apfst ((@) (concat (map (pass options) vs)))
       (while_loop options signal cancel
          (map_option (\<lambda>k. k - length (filter truthy vs)) leave) (n + length vs) rest)"
  using assms
proof (induction vs arbitrary: n leave)
  case Nil
  show ?case by (cases leave) (simp_all add: apfst_def map_prod_def split: prod.splits)
next
  case (Cons v vs)
  let ?d = "if truthy v then 1 else 0 :: nat"
  let ?leave' = "map_option (\<lambda>k. k - ?d) leave"
  from Cons.prems(1) have na: "\<not> aborted signal n" by force
  from Cons.prems(1) have rest_ok: "\<forall>i < length vs. \<not> aborted signal (Suc n + i)" by force
  from Cons.prems(3) have out: "truthy v \<longrightarrow> output_call options n v = Returns" by force
  from Cons.prems(3)
  have outs: "\<forall>i < length vs. truthy (vs ! i) \<longrightarrow> output_call options (Suc n + i) (vs ! i) = Returns"
    by force
  from Cons.prems(2) have not0: "truthy v \<longrightarrow> leave \<noteq> Some 0" by auto
  from Cons.prems(2) have "\<forall>k. ?leave' = Some k \<longrightarrow> length (filter truthy vs) \<le> k" by auto
  note ih = Cons.IH [OF rest_ok this outs]
  have eq: "map_option (\<lambda>k. k - length (filter truthy vs)) ?leave' =
            map_option (\<lambda>k. k - length (filter truthy (v # vs))) leave"
    by (cases leave) simp_all
  have "while_loop options signal cancel leave n (map ReadValue (v # vs) @ rest) =
      apfst ((@) (pass options v))
        (while_loop options signal cancel ?leave' (Suc n) (map ReadValue vs @ rest))"
    using while_loop_pass [OF na out not0] by simp
  also have "\<dots> = apfst ((@) (pass options v))
        (apfst ((@) (concat (map (pass options) vs)))
           (while_loop options signal cancel
              (map_option (\<lambda>k. k - length (filter truthy (v # vs))) leave)
              (Suc n + length vs) rest))"
    by (simp only: ih eq)
  also have "\<dots> = apfst ((@) (concat (map (pass options) (v # vs))))
           (while_loop options signal cancel
              (map_option (\<lambda>k. k - length (filter truthy (v # vs))) leave)
              (n + length (v # vs)) rest)"
    by (simp add: apfst_def map_prod_def split: prod.splits)
  finally show ?case .
qed

lemma while_loop_aborted:
  "aborted signal n \<Longrightarrow> while_loop options signal cancel leave n reads = abort_branch options cancel"
  by (cases reads) simp_all

lemma count_pass: "count_list (concat (map (pass options) vs)) (OnError e) = 0"
  "count_list (concat (map (pass options) vs)) ReleaseLock = 0"
  by (induction vs) (simp_all add: pass_def calls_def split: option.splits)

text \<open>
  The events of a session come in the order of their phases, with at most one event
  in each of the phases in which a session ends.
\<close>

lemma abort_branch_shape:
  assumes "abort_branch options cancel = (evs, c)"
  shows "sorted (map phase evs) \<and> (\<forall>x \<in> set evs. 2 \<le> phase x \<and> phase x \<le> 4) \<and>
     length (filter (\<lambda>x. phase x = 3) evs) \<le> 1 \<and> length (filter (\<lambda>x. phase x = 4) evs) \<le> 1 \<and>
     OnComplete \<notin> set evs \<and>
     (\<forall>e. c = Throw e \<and> OnAbort \<in> set evs \<longrightarrow> outcome_of (onSSEAbort options) = Throws e) \<and>
     c \<noteq> Pending \<and> c \<noteq> Return"
  using assms
  by (auto simp: abort_branch_def calls_def ended_def split: outcome.splits option.splits)

lemma while_loop_shape:
  "while_loop options signal cancel leave n reads = (evs, c) \<Longrightarrow>
     sorted (map phase evs) \<and> (\<forall>x \<in> set evs. 2 \<le> phase x \<and> phase x \<le> 4) \<and>
     length (filter (\<lambda>x. phase x = 3) evs) \<le> 1 \<and> length (filter (\<lambda>x. phase x = 4) evs) \<le> 1 \<and>
     (OnAbort \<in> set evs \<longrightarrow> OnComplete \<notin> set evs) \<and>
     (\<forall>e. c = Throw e \<and> OnAbort \<in> set evs \<longrightarrow> outcome_of (onSSEAbort options) = Throws e) \<and>
     (\<forall>e. c = Throw e \<and> OnComplete \<in> set evs \<longrightarrow> outcome_of (onSSEComplete options) = Throws e) \<and>
     ((c = Pending \<or> c = Return) \<longrightarrow> (\<forall>x \<in> set evs. phase x = 2))"
proof (induction reads arbitrary: n leave evs c)
  case Nil
  show ?case
  proof (cases "aborted signal n")
    case True
    with Nil abort_branch_shape [of options cancel evs c] show ?thesis by auto
  next
    case False
    with Nil show ?thesis by simp
  qed
next
  case (Cons r rs)
  show ?case
  proof (cases "aborted signal n")
    case True
    with Cons.prems abort_branch_shape [of options cancel evs c] show ?thesis by auto
  next
    case na: False
    show ?thesis
    proof (cases r)
      case ReadDone
      with na Cons.prems show ?thesis
        by (auto simp: calls_def ended_def split: outcome.splits option.splits)
    next
      case (ReadRejects e)
      with na Cons.prems show ?thesis by auto
    next
      case (ReadValue v)
      show ?thesis
      proof (cases "truthy v \<and> (output_call options n v \<noteq> Returns \<or> leave = Some 0)")
        case True
        with ReadValue na Cons.prems show ?thesis
          by (auto simp: calls_def split: outcome.splits option.splits)
      next
        case False
        let ?leave' = "map_option (\<lambda>k. k - (if truthy v then 1 else 0)) leave"
        obtain evs' c' where
          w: "while_loop options signal cancel ?leave' (Suc n) rs = (evs', c')"
          by (cases "while_loop options signal cancel ?leave' (Suc n) rs")
        from False have "truthy v \<longrightarrow> output_call options n v = Returns"
          and "truthy v \<longrightarrow> leave \<noteq> Some 0" by auto
        from while_loop_pass [OF na this, of cancel rs] w ReadValue Cons.prems
        have evs: "evs = pass options v @ evs'" and c: "c = c'" by simp_all
        from Cons.IH [OF w] show ?thesis
          unfolding evs c by (auto simp: pass_def calls_def sorted_append split: option.splits)
      qed
    qed
  qed
qed

lemma filter_phase_out:
  "\<forall>x \<in> set xs. phase x \<noteq> k \<Longrightarrow> filter (\<lambda>x. phase x = k) xs = []"
  by (simp add: filter_empty_conv)

lemma session_frame:
  assumes body: "sorted (map phase body)" "\<forall>x \<in> set body. 2 \<le> phase x \<and> phase x \<le> 4"
      "length (filter (\<lambda>x. phase x = 3) body) \<le> 1" "length (filter (\<lambda>x. phase x = 4) body) \<le> 1"
    and tail: "tail = [] \<or> tail = [ReleaseLock] \<or> tail = [Caught e, ReleaseLock] \<or>
               tail = [Caught e, OnError e, ReleaseLock]"
    and evs: "evs = GetReader # calls (onSSEStart options) OnStart @ body @ tail"
    and ab: "Caught e \<in> set tail \<and> OnAbort \<in> set body \<longrightarrow>
               outcome_of (onSSEAbort options) = Throws e"
    and co: "Caught e \<in> set tail \<and> OnComplete \<in> set body \<longrightarrow>
               outcome_of (onSSEComplete options) = Throws e"
  shows "sorted (map phase evs) \<and>
     length (filter (\<lambda>x. phase x = 3) evs) \<le> 1 \<and> length (filter (\<lambda>x. phase x = 4) evs) \<le> 1 \<and>
     length (filter (\<lambda>x. phase x = 5) evs) \<le> 1 \<and> length (filter (\<lambda>x. phase x = 6) evs) \<le> 1 \<and>
     (onSSEStart options \<noteq> None \<longrightarrow> OnStart \<in> set evs) \<and>
     (\<forall>e. Caught e \<in> set evs \<and> OnAbort \<in> set evs \<longrightarrow> outcome_of (onSSEAbort options) = Throws e) \<and>
     (\<forall>e. Caught e \<in> set evs \<and> OnComplete \<in> set evs \<longrightarrow>
          outcome_of (onSSEComplete options) = Throws e) \<and>
     (\<forall>e. OnError e \<in> set evs \<longrightarrow> Caught e \<in> set evs)"
proof -
  let ?start = "calls (onSSEStart options) OnStart"
  have start: "?start = [] \<or> ?start = [OnStart]"
    by (cases "onSSEStart options") (simp_all add: calls_def)
  have started: "onSSEStart options \<noteq> None \<longrightarrow> OnStart \<in> set ?start"
    by (cases "onSSEStart options") (simp_all add: calls_def)
  from body(2) have lo: "\<forall>x \<in> set body. Suc 0 \<le> phase x" and hi: "\<forall>x \<in> set body. phase x \<le> 5"
    and hi6: "\<forall>x \<in> set body. phase x \<le> 6" and hi7: "\<forall>x \<in> set body. phase x \<le> 7"
    by force+
  from body(2) have n5: "\<forall>x \<in> set body. phase x \<noteq> 5" and n6: "\<forall>x \<in> set body. phase x \<noteq> 6"
    by force+
  have b5: "filter (\<lambda>x. phase x = 5) body = []" and b6: "filter (\<lambda>x. phase x = 6) body = []"
    using n5 n6 by (simp_all add: filter_phase_out)
  from n5 have nc: "\<And>e'. Caught e' \<notin> set body" by force
  from n6 have ne: "\<And>e'. OnError e' \<notin> set body" by force
  have srt: "sorted (map phase evs)"
    using start tail body(1) lo hi hi6 hi7 unfolding evs by (elim disjE) (simp_all add: sorted_append)
  have c3: "length (filter (\<lambda>x. phase x = 3) evs) \<le> 1"
    using start tail body(3) unfolding evs by (elim disjE) simp_all
  have c4: "length (filter (\<lambda>x. phase x = 4) evs) \<le> 1"
    using start tail body(4) unfolding evs by (elim disjE) simp_all
  have c5: "length (filter (\<lambda>x. phase x = 5) evs) \<le> 1"
    using start tail b5 unfolding evs by (elim disjE) simp_all
  have c6: "length (filter (\<lambda>x. phase x = 6) evs) \<le> 1"
    using start tail b6 unfolding evs by (elim disjE) simp_all
  have st: "onSSEStart options \<noteq> None \<longrightarrow> OnStart \<in> set evs"
    using started unfolding evs by simp
  have m1: "\<forall>e'. OnError e' \<in> set evs \<longrightarrow> Caught e' \<in> set evs"
    using start tail ne unfolding evs by (elim disjE) simp_all
  have m2: "\<forall>e'. Caught e' \<in> set evs \<longrightarrow> Caught e' \<in> set tail \<and> e' = e"
    using start tail nc unfolding evs by (elim disjE) simp_all
  have m3: "OnAbort \<in> set evs \<longrightarrow> OnAbort \<in> set body"
    using start tail unfolding evs by (elim disjE) simp_all
  have m4: "OnComplete \<in> set evs \<longrightarrow> OnComplete \<in> set body"
    using start tail unfolding evs by (elim disjE) simp_all
  from m2 m3 ab have a: "\<forall>e'. Caught e' \<in> set evs \<and> OnAbort \<in> set evs \<longrightarrow>
      outcome_of (onSSEAbort options) = Throws e'" by blast
  from m2 m4 co have b: "\<forall>e'. Caught e' \<in> set evs \<and> OnComplete \<in> set evs \<longrightarrow>
      outcome_of (onSSEComplete options) = Throws e'" by blast
  from srt c3 c4 c5 c6 st a b m1 show ?thesis by simp
qed

lemma session_shape:
  assumes "asyncIterator options signal cancel leave reads = (evs, c)"
  shows "sorted (map phase evs) \<and>
     length (filter (\<lambda>x. phase x = 3) evs) \<le> 1 \<and> length (filter (\<lambda>x. phase x = 4) evs) \<le> 1 \<and>
     length (filter (\<lambda>x. phase x = 5) evs) \<le> 1 \<and> length (filter (\<lambda>x. phase x = 6) evs) \<le> 1 \<and>
     (onSSEStart options \<noteq> None \<longrightarrow> OnStart \<in> set evs) \<and>
     (\<forall>e. Caught e \<in> set evs \<and> OnAbort \<in> set evs \<longrightarrow> outcome_of (onSSEAbort options) = Throws e) \<and>
     (\<forall>e. Caught e \<in> set evs \<and> OnComplete \<in> set evs \<longrightarrow>
          outcome_of (onSSEComplete options) = Throws e) \<and>
     (\<forall>e. OnError e \<in> set evs \<longrightarrow> Caught e \<in> set evs)"
proof (cases "outcome_of (onSSEStart options)")
  case (Throws e)
  let ?tail = "Caught e # calls (onSSEError options) (OnError e) @ [ReleaseLock]"
  have tail: "?tail = [] \<or> ?tail = [ReleaseLock] \<or> ?tail = [Caught e, ReleaseLock] \<or>
               ?tail = [Caught e, OnError e, ReleaseLock]"
    by (cases "onSSEError options") (simp_all add: calls_def)
  from assms Throws
  have evs: "evs = GetReader # calls (onSSEStart options) OnStart @ [] @ ?tail"
    by (simp add: asyncIterator_def try_block_def catch_clause_def)
  show ?thesis by (rule session_frame [OF _ _ _ _ tail evs]) simp_all
next
  case Returns
  obtain body c' where w: "while_loop options signal cancel leave 0 reads = (body, c')"
    by (cases "while_loop options signal cancel leave 0 reads")
  from while_loop_shape [OF w]
  have b1: "sorted (map phase body)" and b2: "\<forall>x \<in> set body. 2 \<le> phase x \<and> phase x \<le> 4"
    and b3: "length (filter (\<lambda>x. phase x = 3) body) \<le> 1"
    and b4: "length (filter (\<lambda>x. phase x = 4) body) \<le> 1"
    and ab: "\<forall>e. c' = Throw e \<and> OnAbort \<in> set body \<longrightarrow> outcome_of (onSSEAbort options) = Throws e"
    and co: "\<forall>e. c' = Throw e \<and> OnComplete \<in> set body \<longrightarrow>
               outcome_of (onSSEComplete options) = Throws e"
    by simp_all
  show ?thesis
  proof (cases c')
    case (Throw e)
    let ?tail = "Caught e # calls (onSSEError options) (OnError e) @ [ReleaseLock]"
    have tail: "?tail = [] \<or> ?tail = [ReleaseLock] \<or> ?tail = [Caught e, ReleaseLock] \<or>
                 ?tail = [Caught e, OnError e, ReleaseLock]"
      by (cases "onSSEError options") (simp_all add: calls_def)
    from assms w Returns Throw
    have evs: "evs = GetReader # calls (onSSEStart options) OnStart @ body @ ?tail"
      by (simp add: asyncIterator_def try_block_def catch_clause_def)
    from ab co Throw show ?thesis by (intro session_frame [OF b1 b2 b3 b4 tail evs]) simp_all
  next
    case Normal
    have tail: "[ReleaseLock] = [] \<or> [ReleaseLock] = [ReleaseLock] \<or>
        [ReleaseLock] = [Caught (JsError []), ReleaseLock] \<or>
        [ReleaseLock] = [Caught (JsError []), OnError (JsError []), ReleaseLock]" by simp
    from assms w Returns Normal
    have evs: "evs = GetReader # calls (onSSEStart options) OnStart @ body @ [ReleaseLock]"
      by (simp add: asyncIterator_def try_block_def)
    show ?thesis by (rule session_frame [OF b1 b2 b3 b4 tail evs]) simp_all
  next
    case Return
    have tail: "[ReleaseLock] = [] \<or> [ReleaseLock] = [ReleaseLock] \<or>
        [ReleaseLock] = [Caught (JsError []), ReleaseLock] \<or>
        [ReleaseLock] = [Caught (JsError []), OnError (JsError []), ReleaseLock]" by simp
    from assms w Returns Return
    have evs: "evs = GetReader # calls (onSSEStart options) OnStart @ body @ [ReleaseLock]"
      by (simp add: asyncIterator_def try_block_def)
    show ?thesis by (rule session_frame [OF b1 b2 b3 b4 tail evs]) simp_all
  next
    case Pending
    have tail: "([] :: event list) = [] \<or> [] = [ReleaseLock] \<or>
        [] = [Caught (JsError []), ReleaseLock] \<or>
        [] = [Caught (JsError []), OnError (JsError []), ReleaseLock]" by simp
    from assms w Returns Pending
    have evs: "evs = GetReader # calls (onSSEStart options) OnStart @ body @ []"
      by (simp add: asyncIterator_def try_block_def)
    show ?thesis by (rule session_frame [OF b1 b2 b3 b4 tail evs]) simp_all
  qed
qed

lemma filter_at_most_one:
  "length (filter P xs) \<le> 1 \<Longrightarrow> xs = pre @ t # post \<Longrightarrow> P t \<Longrightarrow>
     (\<forall>x \<in> set pre. \<not> P x) \<and> (\<forall>x \<in> set post. \<not> P x)"
  by (auto simp: filter_empty_conv)

lemma last_phase: "7 \<le> phase x \<Longrightarrow> x = ReleaseLock"
  by (cases x rule: phase.cases) simp_all

lemma phase_5: "phase x = 5 \<Longrightarrow> \<exists>e. x = Caught e"
  by (cases x rule: phase.cases) simp_all

lemma phase_6: "phase x = 6 \<Longrightarrow> \<exists>e. x = OnError e"
  by (cases x rule: phase.cases) simp_all

lemma leaves_running_phase: "leaves_running t \<Longrightarrow> phase t = 3 \<or> phase t = 5"
  by (cases t rule: leaves_running.cases) simp_all

lemma terminal_phase: "terminal t \<Longrightarrow> phase t = 4 \<or> phase t = 6"
  by (cases t rule: terminal.cases) simp_all

lemma phase_Pulled: "phase (Pulled r) \<le> 3"
  by (cases r) simp_all

lemma sorted_phase_after:
  "sorted (map phase evs) \<Longrightarrow> evs = pre @ t # post \<Longrightarrow> x \<in> set post \<Longrightarrow> phase t \<le> phase x"
  by (simp add: sorted_append)

lemma sorted_phase_before:
  "sorted (map phase evs) \<Longrightarrow> evs = pre @ t # post \<Longrightarrow> x \<in> set pre \<Longrightarrow> phase x \<le> phase t"
  by (simp add: sorted_append)

text \<open>What follows the event at which a session leaves its running state.\<close>

lemma split_at_unique:
  assumes "x \<notin> set xs" "x \<notin> set ys" "xs @ y # ys = pre @ x # post"
  shows "x = y \<and> pre = xs \<and> post = ys"
  using assms
proof (induction xs arbitrary: pre)
  case Nil
  then show ?case by (cases pre) auto
next
  case (Cons a xs)
  then show ?case by (cases pre) auto
qed

lemma split_skip:
  assumes "x \<notin> set xs" "xs @ ys = pre @ x # post"
  shows "\<exists>pre'. pre = xs @ pre' \<and> ys = pre' @ x # post"
  using assms
proof (induction xs arbitrary: pre)
  case Nil
  then show ?case by simp
next
  case (Cons a xs)
  then show ?case by (cases pre) auto
qed

lemma not_in_calls: "x \<noteq> ev \<Longrightarrow> x \<notin> set (calls cb ev)"
  by (cases cb) (simp_all add: calls_def)

lemma leaving_not_in_pass: "phase x = 3 \<Longrightarrow> x \<notin> set (pass options v)"
  by (auto simp: pass_def calls_def split: option.splits if_splits)

lemma abort_branch_suffix:
  assumes "abort_branch options cancel = (evs, c)" and "evs = pre @ t # post" and "phase t = 3"
  shows "t = CancelReader \<and>
     (case cancel of
        Throws e \<Rightarrow> post = [] \<and> c = Throw e
      | Returns \<Rightarrow> post = calls (onSSEAbort options) OnAbort \<and>
                   c = ended (outcome_of (onSSEAbort options)))"
proof -
  let ?ys = "case cancel of Throws e \<Rightarrow> [] | Returns \<Rightarrow> calls (onSSEAbort options) OnAbort"
  from assms(1) have evs: "evs = [] @ CancelReader # ?ys"
    and c: "c = (case cancel of Throws e \<Rightarrow> Throw e
                 | Returns \<Rightarrow> ended (outcome_of (onSSEAbort options)))"
    by (auto simp: abort_branch_def split: outcome.splits)
  from assms(3) have "t \<noteq> OnAbort" by auto
  then have "t \<notin> set ?ys" by (cases cancel) (simp_all add: not_in_calls)
  with evs assms(2) have "t = CancelReader \<and> pre = [] \<and> post = ?ys"
    by (intro split_at_unique [of t "[]" ?ys CancelReader pre post]) simp_all
  with c show ?thesis by (cases cancel) simp_all
qed

lemma while_loop_suffix:
  "while_loop options signal cancel leave n reads = (evs, c) \<Longrightarrow> evs = pre @ t # post \<Longrightarrow>
   phase t = 3 \<Longrightarrow>
     (t = Pulled ReadDone \<longrightarrow>
        post = calls (onSSEComplete options) OnComplete \<and>
        c = ended (outcome_of (onSSEComplete options))) \<and>
     (t = CancelReader \<longrightarrow>
        (case cancel of
           Throws e \<Rightarrow> post = [] \<and> c = Throw e
         | Returns \<Rightarrow> post = calls (onSSEAbort options) OnAbort \<and>
                      c = ended (outcome_of (onSSEAbort options)))) \<and>
     (\<forall>e. t = Pulled (ReadRejects e) \<longrightarrow> post = [] \<and> c = Throw e)"
proof (induction reads arbitrary: n leave evs c pre)
  case Nil
  show ?case
  proof (cases "aborted signal n")
    case True
    with Nil.prems abort_branch_suffix [of options cancel evs c pre t post] show ?thesis by auto
  next
    case False
    with Nil.prems show ?thesis by simp
  qed
next
  case (Cons r rs)
  show ?case
  proof (cases "aborted signal n")
    case True
    with Cons.prems abort_branch_suffix [of options cancel evs c pre t post] show ?thesis by auto
  next
    case na: False
    show ?thesis
    proof (cases r)
      case ReadDone
      let ?ys = "calls (onSSEComplete options) OnComplete"
      from ReadDone na Cons.prems(1) have evs: "evs = [] @ Pulled ReadDone # ?ys"
        and c: "c = ended (outcome_of (onSSEComplete options))" by auto
      from Cons.prems(3) have "t \<noteq> OnComplete" by auto
      then have "t \<notin> set ?ys" by (rule not_in_calls)
      with evs Cons.prems(2) have "t = Pulled ReadDone \<and> pre = [] \<and> post = ?ys"
        by (intro split_at_unique [of t "[]" ?ys "Pulled ReadDone" pre post]) simp_all
      with c show ?thesis by simp
    next
      case (ReadRejects e)
      with na Cons.prems(1) have evs: "evs = [] @ Pulled (ReadRejects e) # []" and c: "c = Throw e"
        by auto
      with Cons.prems(2) have "t = Pulled (ReadRejects e) \<and> pre = [] \<and> post = []"
        by (intro split_at_unique [of t "[]" "[]" "Pulled (ReadRejects e)" pre post]) simp_all
      with c show ?thesis by simp
    next
      case (ReadValue v)
      show ?thesis
      proof (cases "truthy v \<and> (output_call options n v \<noteq> Returns \<or> leave = Some 0)")
        case True
        with ReadValue na Cons.prems(1) have "\<forall>x \<in> set evs. phase x = 2"
          by (auto simp: calls_def split: outcome.splits option.splits)
        with Cons.prems(2,3) show ?thesis by simp
      next
        case False
        let ?leave' = "map_option (\<lambda>k. k - (if truthy v then 1 else 0)) leave"
        obtain evs' c' where
          w: "while_loop options signal cancel ?leave' (Suc n) rs = (evs', c')"
          by (cases "while_loop options signal cancel ?leave' (Suc n) rs")
        from False have "truthy v \<longrightarrow> output_call options n v = Returns"
          and "truthy v \<longrightarrow> leave \<noteq> Some 0" by auto
        from while_loop_pass [OF na this, of cancel rs] w ReadValue Cons.prems(1)
        have evs: "evs = pass options v @ evs'" and c: "c = c'" by simp_all
        from leaving_not_in_pass [OF Cons.prems(3)] evs Cons.prems(2)
        obtain pre' where "evs' = pre' @ t # post" using split_skip by metis
        from Cons.IH [OF w this Cons.prems(3)] show ?thesis unfolding c .
      qed
    qed
  qed
qed

lemma while_loop_no_late:
  assumes "while_loop options signal cancel leave n reads = (evs, c)"
  shows "ReleaseLock \<notin> set evs \<and> (\<forall>e. Caught e \<notin> set evs) \<and> (\<forall>e. OnError e \<notin> set evs) \<and>
         GetReader \<notin> set evs \<and> OnStart \<notin> set evs"
  using while_loop_shape [OF assms] by force

lemma session_suffix:
  assumes run: "asyncIterator options signal cancel leave reads = (evs, c)"
    and d: "evs = pre @ t # post"
  shows "(t = Pulled ReadDone \<longrightarrow>
            post = calls (onSSEComplete options) OnComplete @
                   after_call options (outcome_of (onSSEComplete options))) \<and>
         (t = CancelReader \<longrightarrow>
            post = (case cancel of
                      Throws e \<Rightarrow> after_call options (Throws e)
                    | Returns \<Rightarrow> calls (onSSEAbort options) OnAbort @
                                 after_call options (outcome_of (onSSEAbort options)))) \<and>
         (\<forall>e. t = Pulled (ReadRejects e) \<longrightarrow> post = after_call options (Throws e)) \<and>
         (\<forall>e. t = Caught e \<longrightarrow> post = calls (onSSEError options) (OnError e) @ [ReleaseLock])"
proof (cases "outcome_of (onSSEStart options)")
  case (Throws e)
  let ?xs = "GetReader # calls (onSSEStart options) OnStart"
  let ?ys = "calls (onSSEError options) (OnError e) @ [ReleaseLock]"
  from run Throws have evs: "evs = ?xs @ Caught e # ?ys"
    by (simp add: asyncIterator_def try_block_def catch_clause_def)
  have nin: "x \<notin> set ?xs" "x \<notin> set ?ys" if "phase x = 3 \<or> phase x = 5" for x
    using that by (auto simp: calls_def split: option.splits)
  have "phase t = 3 \<or> phase t = 5 \<Longrightarrow> t = Caught e \<and> pre = ?xs \<and> post = ?ys"
    using nin [of t] evs d by (intro split_at_unique [of t ?xs ?ys "Caught e" pre post]) simp_all
  then show ?thesis by auto
next
  case Returns
  let ?xs = "GetReader # calls (onSSEStart options) OnStart"
  obtain body c' where w: "while_loop options signal cancel leave 0 reads = (body, c')"
    by (cases "while_loop options signal cancel leave 0 reads")
  note late = while_loop_no_late [OF w]
  define tail where "tail = (case c' of Pending \<Rightarrow> [] | Throw e \<Rightarrow> after_call options (Throws e)
                               | _ \<Rightarrow> [ReleaseLock])"
  from run w Returns have evs: "evs = ?xs @ body @ tail"
    by (cases c') (simp_all add: asyncIterator_def try_block_def tail_def after_call_def
        catch_clause_def)
  have xs3: "x \<notin> set ?xs" if "phase x = 3 \<or> phase x = 5" for x
    using that by (auto simp: calls_def split: option.splits)
  have tail3: "x \<notin> set tail" if "phase x = 3" for x
    using that by (cases c') (auto simp: tail_def after_call_def catch_clause_def calls_def
        split: option.splits)
  have p3: "(t = Pulled ReadDone \<longrightarrow>
            post = calls (onSSEComplete options) OnComplete @
                   after_call options (outcome_of (onSSEComplete options))) \<and>
         (t = CancelReader \<longrightarrow>
            post = (case cancel of
                      Throws e \<Rightarrow> after_call options (Throws e)
                    | Returns \<Rightarrow> calls (onSSEAbort options) OnAbort @
                                 after_call options (outcome_of (onSSEAbort options)))) \<and>
         (\<forall>e. t = Pulled (ReadRejects e) \<longrightarrow> post = after_call options (Throws e))"
    if t3: "phase t = 3"
  proof -
    from xs3 [of t] t3 evs d obtain pre1 where "body @ tail = pre1 @ t # post"
      using split_skip [of t ?xs "body @ tail" pre post] by auto
    moreover from t3 have "t \<notin> set tail" by (rule tail3)
    ultimately obtain post1 where b: "body = pre1 @ t # post1" and p: "post = post1 @ tail"
      by (auto simp: append_eq_append_conv2 append_eq_Cons_conv Cons_eq_append_conv)
    note s = while_loop_suffix [OF w b t3]
    show ?thesis
    proof (intro conjI impI allI)
      assume "t = Pulled ReadDone"
      with s have "post1 = calls (onSSEComplete options) OnComplete"
        and "c' = ended (outcome_of (onSSEComplete options))" by simp_all
      with p show "post = calls (onSSEComplete options) OnComplete @
                   after_call options (outcome_of (onSSEComplete options))"
        by (cases "outcome_of (onSSEComplete options)")
          (simp_all add: tail_def ended_def after_call_def)
    next
      assume "t = CancelReader"
      with s have "case cancel of
           Throws e \<Rightarrow> post1 = [] \<and> c' = Throw e
         | Returns \<Rightarrow> post1 = calls (onSSEAbort options) OnAbort \<and>
                      c' = ended (outcome_of (onSSEAbort options))" by simp
      with p show "post = (case cancel of
                      Throws e \<Rightarrow> after_call options (Throws e)
                    | Returns \<Rightarrow> calls (onSSEAbort options) OnAbort @
                                 after_call options (outcome_of (onSSEAbort options)))"
        by (cases cancel; cases "outcome_of (onSSEAbort options)")
          (simp_all add: tail_def ended_def after_call_def)
    next
      fix e assume "t = Pulled (ReadRejects e)"
      with s have "post1 = []" and "c' = Throw e" by simp_all
      with p show "post = after_call options (Throws e)" by (simp add: tail_def)
    qed
  qed
  have p5: "post = calls (onSSEError options) (OnError e) @ [ReleaseLock]" if t: "t = Caught e" for e
  proof -
    from late have nb: "t \<notin> set body" using t by simp
    from t have "t \<in> set evs" using d by simp
    with evs nb xs3 [of t] t have "t \<in> set tail" by auto
    then obtain e' where c': "c' = Throw e'"
      using t by (cases c') (auto simp: tail_def)
    let ?ys = "calls (onSSEError options) (OnError e') @ [ReleaseLock]"
    from c' evs have evs': "evs = (?xs @ body) @ Caught e' # ?ys"
      by (simp add: tail_def after_call_def catch_clause_def)
    have "t \<notin> set (?xs @ body)" using nb xs3 [of t] t by simp
    moreover have "t \<notin> set ?ys" using t by (auto simp: calls_def split: option.splits)
    ultimately have "t = Caught e' \<and> pre = ?xs @ body \<and> post = ?ys"
      using evs' d by (intro split_at_unique [of t "?xs @ body" ?ys "Caught e'" pre post]) simp_all
    with t show ?thesis by simp
  qed
  from p3 p5 show ?thesis by auto
qed

section \<open>Properties of the iteration wrapper\<close>

text \<open>
  Claim C6, as amended. In every iteration session the start callback fires before
  any output callback and every output callback fires before the complete callback;
  the abort callback, if it occurs, occurs once, and the complete callback then does
  not fire; the error callback, if it occurs, occurs once. The error callback occurs
  together with the abort or the complete callback only when that callback itself has
  thrown, and it is then given what that callback threw; so abort, or error, is the
  unique terminal callback whenever the abort and complete callbacks return normally.
  Terminal states are sticky: after a terminal callback that has returned normally
  only the release of the reader's lock follows; and once the session has left its
  running state, which it does at the answer \<^verbatim>\<open>done\<close>, at a read that rejects, at the
  cancellation request or when an error is caught, whether or not a callback is
  supplied for that ending, no further value is pulled or yielded, the start and
  output callbacks are not called and no cancellation is requested. What follows
  such an event is exactly the callback of that ending, if supplied, then the error
  callback, if supplied and if that callback, the read or the cancellation request
  has thrown, then the release of the lock.
\<close>

theorem lifecycle_callback_order:
  assumes "asyncIterator options signal cancel leave reads = (evs, c)"
  shows "(\<forall>pre v post. evs = pre @ OnOutput v # post \<longrightarrow>
            (onSSEStart options \<noteq> None \<longrightarrow> OnStart \<in> set pre) \<and> OnStart \<notin> set post \<and>
            OnComplete \<notin> set pre)
       \<and> (OnAbort \<in> set evs \<longrightarrow> count_list evs OnAbort = 1 \<and> OnComplete \<notin> set evs)
       \<and> (\<forall>e. OnError e \<in> set evs \<longrightarrow>
            count_list evs (OnError e) = 1 \<and> (\<forall>e'. OnError e' \<in> set evs \<longrightarrow> e' = e))
       \<and> (\<forall>e. OnError e \<in> set evs \<and> OnAbort \<in> set evs \<longrightarrow>
            outcome_of (onSSEAbort options) = Throws e)
       \<and> (\<forall>e. OnError e \<in> set evs \<and> OnComplete \<in> set evs \<longrightarrow>
            outcome_of (onSSEComplete options) = Throws e)
       \<and> (\<forall>pre t post. evs = pre @ t # post \<and> terminal t \<and>
            (t = OnAbort \<longrightarrow> outcome_of (onSSEAbort options) = Returns) \<and>
            (t = OnComplete \<longrightarrow> outcome_of (onSSEComplete options) = Returns) \<longrightarrow>
            set post \<subseteq> {ReleaseLock})
       \<and> (\<forall>pre t post. evs = pre @ t # post \<and> leaves_running t \<longrightarrow>
            (\<forall>r. Pulled r \<notin> set post) \<and> (\<forall>v. OnOutput v \<notin> set post \<and> Yield v \<notin> set post) \<and>
            OnStart \<notin> set post \<and> CancelReader \<notin> set post)
       \<and> (\<forall>pre t post. evs = pre @ t # post \<longrightarrow>
            (t = Pulled ReadDone \<longrightarrow>
               post = calls (onSSEComplete options) OnComplete @
                      after_call options (outcome_of (onSSEComplete options))) \<and>
            (t = CancelReader \<longrightarrow>
               post = (case cancel of
                         Throws e \<Rightarrow> after_call options (Throws e)
                       | Returns \<Rightarrow> calls (onSSEAbort options) OnAbort @
                                    after_call options (outcome_of (onSSEAbort options)))) \<and>
            (\<forall>e. t = Pulled (ReadRejects e) \<longrightarrow> post = after_call options (Throws e)) \<and>
            (\<forall>e. t = Caught e \<longrightarrow> post = calls (onSSEError options) (OnError e) @ [ReleaseLock]))"
proof -
  from session_shape [OF assms]
  have srt: "sorted (map phase evs)"
    and one3: "length (filter (\<lambda>x. phase x = 3) evs) \<le> 1"
    and one4: "length (filter (\<lambda>x. phase x = 4) evs) \<le> 1"
    and one5: "length (filter (\<lambda>x. phase x = 5) evs) \<le> 1"
    and one6: "length (filter (\<lambda>x. phase x = 6) evs) \<le> 1"
    and st: "onSSEStart options \<noteq> None \<longrightarrow> OnStart \<in> set evs"
    and ab: "\<forall>e. Caught e \<in> set evs \<and> OnAbort \<in> set evs \<longrightarrow> outcome_of (onSSEAbort options) = Throws e"
    and co: "\<forall>e. Caught e \<in> set evs \<and> OnComplete \<in> set evs \<longrightarrow>
               outcome_of (onSSEComplete options) = Throws e"
    and ce: "\<forall>e. OnError e \<in> set evs \<longrightarrow> Caught e \<in> set evs"
    by simp_all
  have unique: "count_list evs t = 1 \<and> (\<forall>x \<in> set evs. phase x = k \<longrightarrow> x = t)"
    if "t \<in> set evs" "phase t = k" "length (filter (\<lambda>x. phase x = k) evs) \<le> 1" for t k
  proof -
    from that(1) obtain pre post where d: "evs = pre @ t # post" by (auto dest: split_list)
    note f = filter_at_most_one [OF that(3) d that(2)]
    from f that(2) have "t \<notin> set pre" "t \<notin> set post" by blast+
    with f d show ?thesis by (auto simp: count_notin)
  qed
  have p1: "(onSSEStart options \<noteq> None \<longrightarrow> OnStart \<in> set pre) \<and> OnStart \<notin> set post \<and>
            OnComplete \<notin> set pre"
    if d: "evs = pre @ OnOutput v # post" for pre v post
  proof -
    from sorted_phase_after [OF srt d] have "OnStart \<notin> set post" by fastforce
    moreover from sorted_phase_before [OF srt d] have "OnComplete \<notin> set pre" by fastforce
    ultimately show ?thesis using st d by auto
  qed
  have p2: "count_list evs OnAbort = 1 \<and> OnComplete \<notin> set evs" if "OnAbort \<in> set evs"
    using unique [OF that _ one4] by fastforce
  have p3: "count_list evs (OnError e) = 1 \<and> (\<forall>e'. OnError e' \<in> set evs \<longrightarrow> e' = e)"
    if "OnError e \<in> set evs" for e
    using unique [OF that _ one6] by fastforce
  have p4: "outcome_of (onSSEAbort options) = Throws e"
    if "OnError e \<in> set evs \<and> OnAbort \<in> set evs" for e
    using that ce ab by blast
  have p5: "outcome_of (onSSEComplete options) = Throws e"
    if "OnError e \<in> set evs \<and> OnComplete \<in> set evs" for e
    using that ce co by blast
  have p6: "set post \<subseteq> {ReleaseLock}"
    if d: "evs = pre @ t # post" and t: "terminal t"
      and ra: "t = OnAbort \<longrightarrow> outcome_of (onSSEAbort options) = Returns"
      and rc: "t = OnComplete \<longrightarrow> outcome_of (onSSEComplete options) = Returns"
    for pre t post
  proof
    fix x assume x: "x \<in> set post"
    from d x have xin: "x \<in> set evs" and tin: "t \<in> set evs" by simp_all
    from sorted_phase_after [OF srt d x] have le: "phase t \<le> phase x" .
    have "7 \<le> phase x"
    proof (cases "phase t = 6")
      case True
      from filter_at_most_one [OF one6 d True] x have "phase x \<noteq> 6" by blast
      with le True show ?thesis by simp
    next
      case False
      with t terminal_phase have t4: "phase t = 4" by blast
      from filter_at_most_one [OF one4 d t4] x have n4: "phase x \<noteq> 4" by blast
      from t t4 have tt: "t = OnAbort \<or> t = OnComplete" by (cases t rule: terminal.cases) simp_all
      have nocatch: "Caught e \<notin> set evs" for e
      proof
        assume "Caught e \<in> set evs"
        with tt tin ab co ra rc show False by auto
      qed
      have "phase x \<noteq> 5"
      proof
        assume "phase x = 5"
        then obtain e where "x = Caught e" using phase_5 by blast
        with xin nocatch show False by simp
      qed
      moreover have "phase x \<noteq> 6"
      proof
        assume "phase x = 6"
        then obtain e where "x = OnError e" using phase_6 by blast
        with xin ce nocatch show False by blast
      qed
      ultimately show ?thesis using le t4 n4 by simp
    qed
    then show "x \<in> {ReleaseLock}" by (simp add: last_phase)
  qed
  have p7: "(\<forall>r. Pulled r \<notin> set post) \<and> (\<forall>v. OnOutput v \<notin> set post \<and> Yield v \<notin> set post) \<and>
            OnStart \<notin> set post \<and> CancelReader \<notin> set post"
    if d: "evs = pre @ t # post" and t: "leaves_running t" for pre t post
  proof -
    have late: "4 \<le> phase x" if x: "x \<in> set post" for x
    proof -
      from sorted_phase_after [OF srt d x] have le: "phase t \<le> phase x" .
      from leaves_running_phase [OF t] show ?thesis
      proof
        assume t3: "phase t = 3"
        from filter_at_most_one [OF one3 d t3] x have "phase x \<noteq> 3" by blast
        with le t3 show ?thesis by simp
      next
        assume "phase t = 5"
        with le show ?thesis by simp
      qed
    qed
    have "Pulled r \<notin> set post" for r using late [of "Pulled r"] phase_Pulled [of r] by auto
    moreover have "OnOutput v \<notin> set post" for v using late [of "OnOutput v"] by auto
    moreover have "Yield v \<notin> set post" for v using late [of "Yield v"] by auto
    moreover have "OnStart \<notin> set post" using late [of OnStart] by auto
    moreover have "CancelReader \<notin> set post" using late [of CancelReader] by auto
    ultimately show ?thesis by blast
  qed
  have g1: "\<forall>pre v post. evs = pre @ OnOutput v # post \<longrightarrow>
            (onSSEStart options \<noteq> None \<longrightarrow> OnStart \<in> set pre) \<and> OnStart \<notin> set post \<and>
            OnComplete \<notin> set pre"
    by (intro allI impI) (rule p1)
  have g2: "OnAbort \<in> set evs \<longrightarrow> count_list evs OnAbort = 1 \<and> OnComplete \<notin> set evs"
    by (intro impI) (rule p2)
  have g3: "\<forall>e. OnError e \<in> set evs \<longrightarrow>
            count_list evs (OnError e) = 1 \<and> (\<forall>e'. OnError e' \<in> set evs \<longrightarrow> e' = e)"
    by (intro allI impI) (rule p3)
  have g4: "\<forall>e. OnError e \<in> set evs \<and> OnAbort \<in> set evs \<longrightarrow>
            outcome_of (onSSEAbort options) = Throws e"
    by (intro allI impI) (rule p4)
  have g5: "\<forall>e. OnError e \<in> set evs \<and> OnComplete \<in> set evs \<longrightarrow>
            outcome_of (onSSEComplete options) = Throws e"
    by (intro allI impI) (rule p5)
  have g6: "\<forall>pre t post. evs = pre @ t # post \<and> terminal t \<and>
            (t = OnAbort \<longrightarrow> outcome_of (onSSEAbort options) = Returns) \<and>
            (t = OnComplete \<longrightarrow> outcome_of (onSSEComplete options) = Returns) \<longrightarrow>
            set post \<subseteq> {ReleaseLock}"
  proof (intro allI impI)
    fix pre t post
    assume h: "evs = pre @ t # post \<and> terminal t \<and>
            (t = OnAbort \<longrightarrow> outcome_of (onSSEAbort options) = Returns) \<and>
            (t = OnComplete \<longrightarrow> outcome_of (onSSEComplete options) = Returns)"
    then have h1: "evs = pre @ t # post" and h2: "terminal t"
      and h3: "t = OnAbort \<longrightarrow> outcome_of (onSSEAbort options) = Returns"
      and h4: "t = OnComplete \<longrightarrow> outcome_of (onSSEComplete options) = Returns" by simp_all
    show "set post \<subseteq> {ReleaseLock}" by (rule p6 [OF h1 h2 h3 h4])
  qed
  have g7: "\<forall>pre t post. evs = pre @ t # post \<and> leaves_running t \<longrightarrow>
            (\<forall>r. Pulled r \<notin> set post) \<and> (\<forall>v. OnOutput v \<notin> set post \<and> Yield v \<notin> set post) \<and>
            OnStart \<notin> set post \<and> CancelReader \<notin> set post"
  proof (intro allI impI)
    fix pre t post
    assume h: "evs = pre @ t # post \<and> leaves_running t"
    then have h1: "evs = pre @ t # post" and h2: "leaves_running t" by simp_all
    show "(\<forall>r. Pulled r \<notin> set post) \<and> (\<forall>v. OnOutput v \<notin> set post \<and> Yield v \<notin> set post) \<and>
            OnStart \<notin> set post \<and> CancelReader \<notin> set post" by (rule p7 [OF h1 h2])
  qed
  have g8: "\<forall>pre t post. evs = pre @ t # post \<longrightarrow>
            (t = Pulled ReadDone \<longrightarrow>
               post = calls (onSSEComplete options) OnComplete @
                      after_call options (outcome_of (onSSEComplete options))) \<and>
            (t = CancelReader \<longrightarrow>
               post = (case cancel of
                         Throws e \<Rightarrow> after_call options (Throws e)
                       | Returns \<Rightarrow> calls (onSSEAbort options) OnAbort @
                                    after_call options (outcome_of (onSSEAbort options)))) \<and>
            (\<forall>e. t = Pulled (ReadRejects e) \<longrightarrow> post = after_call options (Throws e)) \<and>
            (\<forall>e. t = Caught e \<longrightarrow> post = calls (onSSEError options) (OnError e) @ [ReleaseLock])"
    by (intro allI impI) (rule session_suffix [OF assms])
  show ?thesis
    by (rule conjI [OF g1 conjI [OF g2 conjI [OF g3 conjI [OF g4 conjI [OF g5 conjI [OF g6
        conjI [OF g7 g8]]]]]]])
qed

theorem lifecycle_callback_order_witness:
  "asyncIterator all_callbacks None Returns None [ReadValue (JString ''x''), ReadDone] =
     ([GetReader, OnStart, Pulled (ReadValue (JString ''x'')), OnOutput (JString ''x''),
       Yield (JString ''x''), Pulled ReadDone, OnComplete, ReleaseLock], Normal)
   \<and> OnStart \<in> set [GetReader, OnStart, Pulled (ReadValue (JString ''x''))]
   \<and> OnStart \<notin> set [Yield (JString ''x''), Pulled ReadDone, OnComplete, ReleaseLock]
   \<and> OnComplete \<notin> set [GetReader, OnStart, Pulled (ReadValue (JString ''x''))]
   \<and> set [ReleaseLock] \<subseteq> {ReleaseLock}
   \<and> Yield (JString ''x'') \<notin> set [OnComplete, ReleaseLock]
   \<and> [OnComplete, ReleaseLock] =
       calls (onSSEComplete all_callbacks) OnComplete @
       after_call all_callbacks (outcome_of (onSSEComplete all_callbacks))
   \<and> asyncIterator all_callbacks (Some (\<lambda>n. 0 < n)) Returns None
         [ReadValue (JString ''x''), ReadValue (JString ''y'')] =
       ([GetReader, OnStart, Pulled (ReadValue (JString ''x'')), OnOutput (JString ''x''),
         Yield (JString ''x''), CancelReader, OnAbort, ReleaseLock], Normal)
   \<and> count_list [GetReader, OnStart, Pulled (ReadValue (JString ''x'')), OnOutput (JString ''x''),
         Yield (JString ''x''), CancelReader, OnAbort, ReleaseLock] OnAbort = 1
   \<and> asyncIterator (all_callbacks\<lparr>onSSEComplete := Some (Throws (JsError ''late''))\<rparr>) None Returns
         None [ReadDone] =
       ([GetReader, OnStart, Pulled ReadDone, OnComplete, Caught (JsError ''late''),
         OnError (JsError ''late''), ReleaseLock], Normal)
   \<and> count_list [GetReader, OnStart, Pulled ReadDone, OnComplete, Caught (JsError ''late''),
         OnError (JsError ''late''), ReleaseLock] (OnError (JsError ''late'')) = 1
   \<and> outcome_of (onSSEComplete (all_callbacks\<lparr>onSSEComplete := Some (Throws (JsError ''late''))\<rparr>)) =
       Throws (JsError ''late'')
   \<and> asyncIterator (all_callbacks\<lparr>onSSEAbort := Some (Throws (JsError ''late''))\<rparr>)
         (Some (\<lambda>n. True)) Returns None [ReadDone] =
       ([GetReader, OnStart, CancelReader, OnAbort, Caught (JsError ''late''),
         OnError (JsError ''late''), ReleaseLock], Normal)
   \<and> outcome_of (onSSEAbort (all_callbacks\<lparr>onSSEAbort := Some (Throws (JsError ''late''))\<rparr>)) =
       Throws (JsError ''late'')"
proof -
  let ?x = "JString ''x''"
  let ?done = "[GetReader, OnStart, Pulled (ReadValue ?x), OnOutput ?x, Yield ?x, Pulled ReadDone,
     OnComplete, ReleaseLock]"
  let ?abort = "[GetReader, OnStart, Pulled (ReadValue ?x), OnOutput ?x, Yield ?x, CancelReader,
     OnAbort, ReleaseLock]"
  let ?late = "[GetReader, OnStart, Pulled ReadDone, OnComplete, Caught (JsError ''late''),
     OnError (JsError ''late''), ReleaseLock]"
  let ?late_abort = "[GetReader, OnStart, CancelReader, OnAbort, Caught (JsError ''late''),
     OnError (JsError ''late''), ReleaseLock]"
  let ?opts = "all_callbacks\<lparr>onSSEComplete := Some (Throws (JsError ''late''))\<rparr>"
  let ?opts_abort = "all_callbacks\<lparr>onSSEAbort := Some (Throws (JsError ''late''))\<rparr>"
  have run1: "asyncIterator all_callbacks None Returns None [ReadValue ?x, ReadDone] = (?done, Normal)"
    by (simp add: asyncIterator_def try_block_def all_callbacks_def calls_def aborted_def
        outcome_of_def output_call_def ended_def)
  have run2: "asyncIterator all_callbacks (Some (\<lambda>n. 0 < n)) Returns None
                [ReadValue ?x, ReadValue (JString ''y'')] = (?abort, Normal)"
    by (simp add: asyncIterator_def try_block_def abort_branch_def all_callbacks_def calls_def
        aborted_def outcome_of_def output_call_def ended_def)
  have run3: "asyncIterator ?opts None Returns None [ReadDone] = (?late, Normal)"
    by (simp add: asyncIterator_def try_block_def catch_clause_def all_callbacks_def calls_def
        aborted_def outcome_of_def error_call_def ended_def)
  have run4: "asyncIterator ?opts_abort (Some (\<lambda>n. True)) Returns None [ReadDone] =
                (?late_abort, Normal)"
    by (simp add: asyncIterator_def try_block_def abort_branch_def catch_clause_def
        all_callbacks_def calls_def aborted_def outcome_of_def error_call_def ended_def)
  note t1 = lifecycle_callback_order [OF run1]
  note t2 = lifecycle_callback_order [OF run2]
  note t3 = lifecycle_callback_order [OF run3]
  note t4 = lifecycle_callback_order [OF run4]
  have d1: "?done = [GetReader, OnStart, Pulled (ReadValue ?x)] @ OnOutput ?x #
            [Yield ?x, Pulled ReadDone, OnComplete, ReleaseLock]" by simp
  have d2: "?done = [GetReader, OnStart, Pulled (ReadValue ?x), OnOutput ?x, Yield ?x, Pulled ReadDone] @
            OnComplete # [ReleaseLock]
          \<and> terminal OnComplete
          \<and> (OnComplete = OnAbort \<longrightarrow> outcome_of (onSSEAbort all_callbacks) = Returns)
          \<and> (OnComplete = OnComplete \<longrightarrow> outcome_of (onSSEComplete all_callbacks) = Returns)"
    by (simp add: all_callbacks_def outcome_of_def)
  have d3: "?done = [GetReader, OnStart, Pulled (ReadValue ?x), OnOutput ?x, Yield ?x] @
            Pulled ReadDone # [OnComplete, ReleaseLock]
          \<and> leaves_running (Pulled ReadDone)" by simp
  have d3': "?done = [GetReader, OnStart, Pulled (ReadValue ?x), OnOutput ?x, Yield ?x] @
            Pulled ReadDone # [OnComplete, ReleaseLock]" by simp
  have d4: "OnAbort \<in> set ?abort" by simp
  have d5: "OnError (JsError ''late'') \<in> set ?late" by simp
  have d6: "OnError (JsError ''late'') \<in> set ?late \<and> OnComplete \<in> set ?late" by simp
  have d7: "OnError (JsError ''late'') \<in> set ?late_abort \<and> OnAbort \<in> set ?late_abort" by simp
  note a1 = t1 [THEN conjunct1, rule_format, OF d1]
  note a2 = t1 [THEN conjunct2, THEN conjunct2, THEN conjunct2, THEN conjunct2, THEN conjunct2,
      THEN conjunct1, rule_format, OF d2]
  note a3 = t1 [THEN conjunct2, THEN conjunct2, THEN conjunct2, THEN conjunct2, THEN conjunct2,
      THEN conjunct2, THEN conjunct1, rule_format, OF d3]
  note a8 = t1 [THEN conjunct2, THEN conjunct2, THEN conjunct2, THEN conjunct2, THEN conjunct2,
      THEN conjunct2, THEN conjunct2, rule_format, OF d3', THEN conjunct1, rule_format, OF refl]
  note a4 = t2 [THEN conjunct2, THEN conjunct1, rule_format, OF d4]
  note a5 = t3 [THEN conjunct2, THEN conjunct2, THEN conjunct1, rule_format, OF d5]
  note a6 = t3 [THEN conjunct2, THEN conjunct2, THEN conjunct2, THEN conjunct2, THEN conjunct1,
      rule_format, OF d6]
  note a7 = t4 [THEN conjunct2, THEN conjunct2, THEN conjunct2, THEN conjunct1, rule_format, OF d7]
  have s1: "OnStart \<in> set [GetReader, OnStart, Pulled (ReadValue ?x)]" by simp
  from a1 have s2: "OnStart \<notin> set [Yield ?x, Pulled ReadDone, OnComplete, ReleaseLock]"
    and s3: "OnComplete \<notin> set [GetReader, OnStart, Pulled (ReadValue ?x)]" by blast+
  from a3 have s4: "Yield ?x \<notin> set [OnComplete, ReleaseLock]" by blast
  from a4 have s5: "count_list ?abort OnAbort = 1" by blast
  from a5 have s6: "count_list ?late (OnError (JsError ''late'')) = 1" by blast
  show ?thesis
    by (intro conjI) (rule run1 s1 s2 s3 a2 s4 a8 run2 s5 run3 s6 a6 run4 a7)+
qed

text \<open>
  The claim as stated fails: the callbacks run inside the \<^verbatim>\<open>try\<close> block, so when the
  complete callback throws, the error callback is called after it.
\<close>

theorem error_callback_after_complete_callback:
  "asyncIterator (all_callbacks\<lparr>onSSEComplete := Some (Throws (JsError ''late''))\<rparr>) None Returns None
     [ReadDone] =
     ([GetReader, OnStart, Pulled ReadDone, OnComplete, Caught (JsError ''late''),
       OnError (JsError ''late''), ReleaseLock], Normal)
   \<and> OnError (JsError ''late'') \<in> set (fst (asyncIterator
         (all_callbacks\<lparr>onSSEComplete := Some (Throws (JsError ''late''))\<rparr>) None Returns None [ReadDone]))
   \<and> OnComplete \<in> set (fst (asyncIterator
         (all_callbacks\<lparr>onSSEComplete := Some (Throws (JsError ''late''))\<rparr>) None Returns None [ReadDone]))"
  by (simp add: asyncIterator_def try_block_def catch_clause_def all_callbacks_def calls_def
      aborted_def outcome_of_def error_call_def ended_def)

text \<open>
  Claim C1, as amended. In every iteration session in which a read of the source
  rejects, the error callback, if supplied, is called with that error exactly once,
  the reader's lock is released, and the wrapper does not raise the error again:
  the iteration ends normally and the consumer's loop does not fail. Only when the
  error callback itself throws does the consumer receive an error, the one that
  callback threw.
\<close>

theorem read_error_reported_not_raised:
  assumes "\<forall>i \<le> length vs. \<not> aborted signal i"
    and "\<forall>k. leave = Some k \<longrightarrow> length (filter truthy vs) \<le> k"
    and "outcome_of (onSSEStart options) = Returns"
    and "\<forall>i < length vs. truthy (vs ! i) \<longrightarrow> output_call options i (vs ! i) = Returns"
    and "asyncIterator options signal cancel leave (map ReadValue vs @ ReadRejects error # rest) =
           (evs, c)"
  shows "evs = GetReader # calls (onSSEStart options) OnStart @ concat (map (pass options) vs) @
                 Pulled (ReadRejects error) # Caught error #
                 calls (onSSEError options) (OnError error) @ [ReleaseLock]
       \<and> c = (case error_call options error of Returns \<Rightarrow> Normal | Throws thrown \<Rightarrow> Throw thrown)
       \<and> count_list evs (OnError error) = (if onSSEError options = None then 0 else 1)
       \<and> count_list evs ReleaseLock = 1"
proof -
  from assms(1) have h: "\<forall>i < length vs. \<not> aborted signal (0 + i)" by simp
  from assms(1) have na: "\<not> aborted signal (length vs)" by simp
  from assms(4)
  have o: "\<forall>i < length vs. truthy (vs ! i) \<longrightarrow> output_call options (0 + i) (vs ! i) = Returns"
    by simp
  from while_loop_values [OF h assms(2) o, of cancel "ReadRejects error # rest"] na
  have "while_loop options signal cancel leave 0 (map ReadValue vs @ ReadRejects error # rest) =
      (concat (map (pass options) vs) @ [Pulled (ReadRejects error)], Throw error)"
    by simp
  with assms(3,5)
  have "evs = GetReader # calls (onSSEStart options) OnStart @ concat (map (pass options) vs) @
                 Pulled (ReadRejects error) # Caught error #
                 calls (onSSEError options) (OnError error) @ [ReleaseLock]"
    and "c = (case error_call options error of Returns \<Rightarrow> Normal | Throws thrown \<Rightarrow> Throw thrown)"
    by (simp_all add: asyncIterator_def try_block_def catch_clause_def ended_def)
  then show ?thesis
    by (cases "onSSEStart options"; cases "onSSEError options") (simp_all add: count_pass calls_def)
qed

theorem read_error_reported_not_raised_witness:
  "asyncIterator all_callbacks None Returns None
     (map ReadValue [JString ''a''] @ ReadRejects (JsError ''boom'') # [ReadDone]) =
   ([GetReader, OnStart, Pulled (ReadValue (JString ''a'')), OnOutput (JString ''a''),
     Yield (JString ''a''), Pulled (ReadRejects (JsError ''boom'')), Caught (JsError ''boom''),
     OnError (JsError ''boom''), ReleaseLock], Normal)
   \<and> count_list [GetReader, OnStart, Pulled (ReadValue (JString ''a'')), OnOutput (JString ''a''),
        Yield (JString ''a''), Pulled (ReadRejects (JsError ''boom'')), Caught (JsError ''boom''),
        OnError (JsError ''boom''), ReleaseLock] (OnError (JsError ''boom'')) = 1"
proof -
  let ?evs = "[GetReader, OnStart, Pulled (ReadValue (JString ''a'')), OnOutput (JString ''a''),
     Yield (JString ''a''), Pulled (ReadRejects (JsError ''boom'')), Caught (JsError ''boom''),
     OnError (JsError ''boom''), ReleaseLock]"
  have h1: "\<forall>i \<le> length [JString ''a'']. \<not> aborted None i" by (simp add: aborted_def)
  have h2: "\<forall>k. (None :: nat option) = Some k \<longrightarrow> length (filter truthy [JString ''a'']) \<le> k"
    by simp
  have h3: "outcome_of (onSSEStart all_callbacks) = Returns"
    by (simp add: all_callbacks_def outcome_of_def)
  have h4: "\<forall>i < length [JString ''a'']. truthy ([JString ''a''] ! i) \<longrightarrow>
              output_call all_callbacks i ([JString ''a''] ! i) = Returns"
    by (simp add: all_callbacks_def output_call_def outcome_of_def)
  have h5: "asyncIterator all_callbacks None Returns None
     (map ReadValue [JString ''a''] @ ReadRejects (JsError ''boom'') # [ReadDone]) = (?evs, Normal)"
    by (simp add: asyncIterator_def try_block_def catch_clause_def all_callbacks_def calls_def
        aborted_def outcome_of_def output_call_def error_call_def ended_def)
  note t = read_error_reported_not_raised [OF h1 h2 h3 h4 h5]
  from t [THEN conjunct2, THEN conjunct2, THEN conjunct1]
  have "count_list ?evs (OnError (JsError ''boom'')) = 1" by (simp add: all_callbacks_def)
  with h5 show ?thesis by simp
qed

text \<open>
  The claim as stated fails: a session whose first read rejects ends normally, after
  the error callback, and no error reaches the consumer.
\<close>

theorem read_error_not_propagated:
  "asyncIterator all_callbacks None Returns None [ReadRejects (JsError ''boom'')] =
     ([GetReader, OnStart, Pulled (ReadRejects (JsError ''boom'')), Caught (JsError ''boom''),
       OnError (JsError ''boom''), ReleaseLock], Normal)
   \<and> snd (asyncIterator all_callbacks None Returns None [ReadRejects (JsError ''boom'')]) \<noteq>
       Throw (JsError ''boom'')"
  by (simp add: asyncIterator_def try_block_def catch_clause_def all_callbacks_def calls_def
      aborted_def outcome_of_def error_call_def ended_def)

text \<open>
  Claim C3, as amended. For every truthy value read from the final stage during
  iteration, the wrapper calls the output callback with that value (if supplied) and,
  the callback having returned, yields the value to the consumer, and the loop goes
  on; a falsy value, such as the empty string of a custom transform, is skipped
  without callback and without yield, and the loop goes on as well.
\<close>

theorem truthy_values_are_passed_on:
  assumes "\<forall>i < length vs. \<not> aborted signal (n + i)"
    and "\<forall>k. leave = Some k \<longrightarrow> length (filter truthy vs) \<le> k"
    and "\<forall>i < length vs. truthy (vs ! i) \<longrightarrow> output_call options (n + i) (vs ! i) = Returns"
  shows "while_loop options signal cancel leave n (map ReadValue vs @ rest) =
     apfst ((@) (concat (map (\<lambda>v. Pulled (ReadValue v) #
                                   (if truthy v
                                    then calls (onSSEOutput options) (OnOutput v) @ [Yield v]
                                    else [])) vs)))
       (while_loop options signal cancel
          (map_option (\<lambda>k. k - length (filter truthy vs)) leave) (n + length vs) rest)"
proof -
  have "pass options = (\<lambda>v. Pulled (ReadValue v) #
      (if truthy v then calls (onSSEOutput options) (OnOutput v) @ [Yield v] else []))"
    by (rule ext) (simp add: pass_def)
  with while_loop_values [OF assms, of cancel rest] show ?thesis by simp
qed

theorem truthy_values_are_passed_on_witness:
  "while_loop all_callbacks None Returns None 0
     (map ReadValue [JString ''a'', JString [], JNumber 0, JObject [(''data'', ''x'')]] @ [ReadDone]) =
   ([Pulled (ReadValue (JString ''a'')), OnOutput (JString ''a''), Yield (JString ''a''),
     Pulled (ReadValue (JString [])), Pulled (ReadValue (JNumber 0)),
     Pulled (ReadValue (JObject [(''data'', ''x'')])), OnOutput (JObject [(''data'', ''x'')]),
     Yield (JObject [(''data'', ''x'')]), Pulled ReadDone, OnComplete], Normal)"
proof -
  let ?vs = "[JString ''a'', JString [], JNumber 0, JObject [(''data'', ''x'')]]"
  have h1: "\<forall>i < length ?vs. \<not> aborted None (0 + i)"
    by (simp add: aborted_def)
  have h2: "\<forall>k. (None :: nat option) = Some k \<longrightarrow> length (filter truthy ?vs) \<le> k"
    by simp
  have h3: "\<forall>i < length ?vs. truthy (?vs ! i) \<longrightarrow> output_call all_callbacks (0 + i) (?vs ! i) = Returns"
    by (simp add: all_callbacks_def output_call_def outcome_of_def)
  from truthy_values_are_passed_on [OF h1 h2 h3, of Returns "[ReadDone]"]
  show ?thesis
    by (simp add: all_callbacks_def calls_def aborted_def outcome_of_def ended_def)
qed

text \<open>
  The claim as stated fails: the empty string read from the final stage reaches
  neither the output callback nor the consumer.
\<close>

theorem falsy_value_not_passed_on:
  "asyncIterator all_callbacks None Returns None [ReadValue (JString []), ReadDone] =
     ([GetReader, OnStart, Pulled (ReadValue (JString [])), Pulled ReadDone, OnComplete,
       ReleaseLock], Normal)
   \<and> OnOutput (JString []) \<notin>
       set (fst (asyncIterator all_callbacks None Returns None [ReadValue (JString []), ReadDone]))
   \<and> yielded (fst (asyncIterator all_callbacks None Returns None
        [ReadValue (JString []), ReadDone])) = []"
  by (simp add: asyncIterator_def try_block_def all_callbacks_def calls_def aborted_def
      outcome_of_def ended_def)

text \<open>
  Claim C7, as amended. When the cancellation signal is already set before the first
  pull, nothing is pulled and the iteration yields no value; if the start callback
  returns normally, a cancellation request is issued to the reader of the source,
  once; and if that request succeeds, the abort callback (if supplied) is called
  exactly once. When the request is rejected, as it is by a source that has already
  errored, the abort callback is not called and the error callback (if supplied) is
  called once with the rejection.
\<close>

theorem abort_before_first_pull:
  assumes "aborted signal 0"
    and "asyncIterator options signal cancel leave reads = (evs, c)"
  shows "yielded evs = [] \<and> (\<forall>r. Pulled r \<notin> set evs)
       \<and> (outcome_of (onSSEStart options) = Returns \<longrightarrow> count_list evs CancelReader = 1)
       \<and> (outcome_of (onSSEStart options) = Returns \<and> cancel = Returns \<longrightarrow>
            count_list evs OnAbort = (if onSSEAbort options = None then 0 else 1))
       \<and> (\<forall>e. outcome_of (onSSEStart options) = Returns \<and> cancel = Throws e \<longrightarrow>
            OnAbort \<notin> set evs \<and>
            count_list evs (OnError e) = (if onSSEError options = None then 0 else 1))"
proof -
  let ?start = "calls (onSSEStart options) OnStart"
  let ?abort = "calls (onSSEAbort options) OnAbort"
  have loop: "while_loop options signal cancel leave 0 reads = abort_branch options cancel"
    using assms(1) by (rule while_loop_aborted)
  show ?thesis
  proof (cases "outcome_of (onSSEStart options)")
    case (Throws e)
    with assms(2)
    have "evs = GetReader # ?start @ Caught e # calls (onSSEError options) (OnError e) @ [ReleaseLock]"
      by (simp add: asyncIterator_def try_block_def catch_clause_def)
    with Throws show ?thesis
      by (cases "onSSEStart options"; cases "onSSEError options") (simp_all add: calls_def)
  next
    case Returns
    show ?thesis
    proof (cases cancel)
      case (Throws e)
      with assms(2) Returns loop
      have "evs = GetReader # ?start @ CancelReader # Caught e #
                    calls (onSSEError options) (OnError e) @ [ReleaseLock]"
        by (simp add: asyncIterator_def try_block_def catch_clause_def abort_branch_def)
      with Throws show ?thesis
        by (cases "onSSEStart options"; cases "onSSEError options") (simp_all add: calls_def)
    next
      case cr: Returns
      show ?thesis
      proof (cases "outcome_of (onSSEAbort options)")
        case (Throws e)
        with assms(2) Returns cr loop
        have "evs = GetReader # ?start @ CancelReader # ?abort @ Caught e #
                      calls (onSSEError options) (OnError e) @ [ReleaseLock]"
          by (simp add: asyncIterator_def try_block_def catch_clause_def abort_branch_def ended_def)
        with cr show ?thesis
          by (cases "onSSEStart options"; cases "onSSEAbort options"; cases "onSSEError options")
            (simp_all add: calls_def)
      next
        case ar: Returns
        with assms(2) Returns cr loop
        have "evs = GetReader # ?start @ CancelReader # ?abort @ [ReleaseLock]"
          by (simp add: asyncIterator_def try_block_def abort_branch_def ended_def)
        with cr show ?thesis
          by (cases "onSSEStart options"; cases "onSSEAbort options") (simp_all add: calls_def)
      qed
    qed
  qed
qed

theorem abort_before_first_pull_witness:
  "asyncIterator all_callbacks (Some (\<lambda>n. True)) Returns None
     [ReadValue (JObject [(''data'', ''x'')]), ReadDone] =
     ([GetReader, OnStart, CancelReader, OnAbort, ReleaseLock], Normal)
   \<and> yielded [GetReader, OnStart, CancelReader, OnAbort, ReleaseLock] = []
   \<and> count_list [GetReader, OnStart, CancelReader, OnAbort, ReleaseLock] CancelReader = 1
   \<and> count_list [GetReader, OnStart, CancelReader, OnAbort, ReleaseLock] OnAbort = 1
   \<and> asyncIterator all_callbacks (Some (\<lambda>n. True)) (Throws (JsError ''errored'')) None [] =
       ([GetReader, OnStart, CancelReader, Caught (JsError ''errored''),
         OnError (JsError ''errored''), ReleaseLock], Normal)
   \<and> OnAbort \<notin> set [GetReader, OnStart, CancelReader, Caught (JsError ''errored''),
         OnError (JsError ''errored''), ReleaseLock]"
proof -
  let ?a = "[GetReader, OnStart, CancelReader, OnAbort, ReleaseLock]"
  let ?r = "[GetReader, OnStart, CancelReader, Caught (JsError ''errored''),
         OnError (JsError ''errored''), ReleaseLock]"
  have h: "aborted (Some (\<lambda>n. True)) 0" by (simp add: aborted_def)
  have run1: "asyncIterator all_callbacks (Some (\<lambda>n. True)) Returns None
     [ReadValue (JObject [(''data'', ''x'')]), ReadDone] = (?a, Normal)"
    by (simp add: asyncIterator_def try_block_def abort_branch_def all_callbacks_def calls_def
        aborted_def outcome_of_def ended_def)
  have run2: "asyncIterator all_callbacks (Some (\<lambda>n. True)) (Throws (JsError ''errored'')) None [] =
     (?r, Normal)"
    by (simp add: asyncIterator_def try_block_def abort_branch_def catch_clause_def
        all_callbacks_def calls_def aborted_def outcome_of_def error_call_def ended_def)
  have st: "outcome_of (onSSEStart all_callbacks) = Returns"
    by (simp add: all_callbacks_def outcome_of_def)
  note t1 = abort_before_first_pull [OF h run1]
  note t2 = abort_before_first_pull [OF h run2]
  from t1 have s1: "yielded ?a = []" by (rule conjunct1)
  from t1 [THEN conjunct2, THEN conjunct2, THEN conjunct1] st
  have s2: "count_list ?a CancelReader = 1" by (rule mp)
  from t1 [THEN conjunct2, THEN conjunct2, THEN conjunct2, THEN conjunct1] st
  have s3: "count_list ?a OnAbort = 1" by (simp add: all_callbacks_def)
  from t2 [THEN conjunct2, THEN conjunct2, THEN conjunct2, THEN conjunct2, rule_format,
      of "JsError ''errored''"] st
  have s4: "OnAbort \<notin> set ?r" by blast
  show ?thesis by (intro conjI) (rule run1 s1 s2 s3 run2 s4)+
qed

text \<open>
  The claim as stated fails: \<^verbatim>\<open>await reader.cancel()\<close> stands before the abort
  callback inside the \<^verbatim>\<open>try\<close> block, so a rejected cancellation request goes to the
  \<^verbatim>\<open>catch\<close> clause and the abort callback is never called.
\<close>

theorem rejected_cancel_skips_abort_callback:
  "asyncIterator all_callbacks (Some (\<lambda>n. True)) (Throws (JsError ''errored'')) None [] =
     ([GetReader, OnStart, CancelReader, Caught (JsError ''errored''),
       OnError (JsError ''errored''), ReleaseLock], Normal)
   \<and> count_list (fst (asyncIterator all_callbacks (Some (\<lambda>n. True))
        (Throws (JsError ''errored'')) None [])) OnAbort = 0"
  by (simp add: asyncIterator_def try_block_def abort_branch_def catch_clause_def
      all_callbacks_def calls_def aborted_def outcome_of_def error_call_def ended_def)

section \<open>Properties of the part parser and of the default pipeline\<close>

text \<open>
  Claim C5. The parser takes as the value of a line the text after the first
  occurrence of the key-value delimiter, trimmed. The code takes the text from one
  code unit after the start of that occurrence: with the delimiter \<^verbatim>\<open>=>\<close>, found at
  position 1 of the line \<^verbatim>\<open>a=>b\<close>, the text after the delimiter is \<^verbatim>\<open>b\<close> and the field
  the code stores is \<^verbatim>\<open>>b\<close>.
\<close>

theorem splitPart_value_after_long_delimiter:
  "indexOf ''a=>b'' ''=>'' = Some 1
   \<and> splitPart_transform ''\<newline>'' ''=>'' ''a=>b'' = [[(''a'', ''>b'')]]
   \<and> trim (drop (1 + length ''=>'') ''a=>b'') = ''b''"
  by code_simp

text \<open>
  Claim C10. A line with a valid key and nothing after its key-value delimiter
  gives a field with the empty string as value. With the delimiter \<^verbatim>\<open>=>\<close> the line
  \<^verbatim>\<open>data=>\<close> has nothing after the delimiter, and the code stores the value \<^verbatim>\<open>>\<close>.
\<close>

theorem splitPart_empty_value_after_long_delimiter:
  "indexOf ''data=>'' ''=>'' = Some 4
   \<and> trim (drop (4 + length ''=>'') ''data=>'') = []
   \<and> splitPart_transform ''\<newline>'' ''=>'' ''data=>'' = [[(''data'', ''>'')]]"
  by code_simp

text \<open>
  Claim C2, as amended. For every input whose decoded text splits, on a non-empty
  stream delimiter, into N parts that are not white space only, the default pipeline
  emits, in the order of the parts, exactly one record for each part from which at
  least one key-value pair is parseable, and none for the other parts: at most N
  records. Each record has exactly the keys of the pairs parseable from its part and,
  for a key-value delimiter of at most one code unit (such as the default colon),
  contains exactly those pairs, a later pair overwriting an earlier one with the same
  key.
\<close>

theorem default_pipeline_records:
  assumes "transformStream options = None"
    and "S = or_default (STREAM_SEPARATOR options) DEFAULT_STREAM_SEPARATOR" and "S \<noteq> []"
    and "P = or_default (PART_SEPARATOR options) DEFAULT_PART_SEPARATOR"
    and "K = or_default (KV_SEPARATOR options) DEFAULT_KV_SEPARATOR"
    and "parts = filter (\<lambda>p. trim p \<noteq> []) (split_js (concat (decoderStream input)) S)"
  shows "\<exists>records.
      XStream decoderStream options (ReadableStream input) = Inr (map JObject records) \<and>
      list_all2
        (\<lambda>record part.
           distinct (map fst record) \<and>
           fst ` set record = fst ` set (spec_pairs P K part) \<and>
           (length K \<le> 1 \<longrightarrow> map_of record = map_of (rev (spec_pairs P K part))))
        records (filter (\<lambda>part. spec_pairs P K part \<noteq> []) parts) \<and>
      length records \<le> length parts"
proof -
  let ?with_pairs = "filter (\<lambda>part. spec_pairs P K part \<noteq> []) parts"
  let ?records = "map (splitPart_event P K) ?with_pairs"
  from assms have "XStream decoderStream options (ReadableStream input) = Inr (map JObject ?records)"
    by (simp add: XStream_def processedStream_def splitPart_parts splitStream_text)
  moreover have "list_all2
        (\<lambda>record part.
           distinct (map fst record) \<and>
           fst ` set record = fst ` set (spec_pairs P K part) \<and>
           (length K \<le> 1 \<longrightarrow> map_of record = map_of (rev (spec_pairs P K part))))
        ?records ?with_pairs"
    by (simp add: list_all2_map1 list_all2_same splitPart_event_spec)
  moreover have "length ?records \<le> length parts" by simp
  ultimately show ?thesis by blast
qed

theorem default_pipeline_records_witness:
  "XStream id all_callbacks
     (ReadableStream
        [''data: Hello World\<newline>event: message\<newline>id: 1\<newline>data: Bye\<newline>\<newline>'', ''hello\<newline>\<newline>da'',
         ''ta: x'']) =
     Inr (map JObject [[(''data'', ''Bye''), (''event'', ''message''), (''id'', ''1'')],
                       [(''data'', ''x'')]])
   \<and> filter (\<lambda>part. spec_pairs ''\<newline>'' '':'' part \<noteq> [])
        [''data: Hello World\<newline>event: message\<newline>id: 1\<newline>data: Bye'', ''hello'', ''data: x''] =
       [''data: Hello World\<newline>event: message\<newline>id: 1\<newline>data: Bye'', ''data: x'']
   \<and> list_all2
        (\<lambda>record part. map_of record = map_of (rev (spec_pairs ''\<newline>'' '':'' part)))
        [[(''data'', ''Bye''), (''event'', ''message''), (''id'', ''1'')], [(''data'', ''x'')]]
        [''data: Hello World\<newline>event: message\<newline>id: 1\<newline>data: Bye'', ''data: x'']"
proof -
  let ?input = "[''data: Hello World\<newline>event: message\<newline>id: 1\<newline>data: Bye\<newline>\<newline>'', ''hello\<newline>\<newline>da'', ''ta: x'']"
  let ?parts = "[''data: Hello World\<newline>event: message\<newline>id: 1\<newline>data: Bye'', ''hello'', ''data: x'']"
  let ?with_pairs = "[''data: Hello World\<newline>event: message\<newline>id: 1\<newline>data: Bye'', ''data: x'']"
  let ?R = "[[(''data'', ''Bye''), (''event'', ''message''), (''id'', ''1'')], [(''data'', ''x'')]]"
  have h1: "transformStream all_callbacks = None" by (simp add: all_callbacks_def)
  have h2: "''\<newline>\<newline>'' = or_default (STREAM_SEPARATOR all_callbacks) DEFAULT_STREAM_SEPARATOR"
    by (simp add: all_callbacks_def or_default_def DEFAULT_STREAM_SEPARATOR_def)
  have h3: "''\<newline>\<newline>'' \<noteq> []" by simp
  have h4: "''\<newline>'' = or_default (PART_SEPARATOR all_callbacks) DEFAULT_PART_SEPARATOR"
    by (simp add: all_callbacks_def or_default_def DEFAULT_PART_SEPARATOR_def)
  have h5: "'':'' = or_default (KV_SEPARATOR all_callbacks) DEFAULT_KV_SEPARATOR"
    by (simp add: all_callbacks_def or_default_def DEFAULT_KV_SEPARATOR_def)
  have h6: "?parts = filter (\<lambda>p. trim p \<noteq> []) (split_js (concat (id ?input)) ''\<newline>\<newline>'')"
    by code_simp
  have wp: "filter (\<lambda>part. spec_pairs ''\<newline>'' '':'' part \<noteq> []) ?parts = ?with_pairs"
    by code_simp
  have out: "XStream id all_callbacks (ReadableStream ?input) = Inr (map JObject ?R)"
    by code_simp
  from default_pipeline_records [where decoderStream = id and input = ?input, OF h1 h2 h3 h4 h5 h6]
  obtain records where
    r1: "XStream id all_callbacks (ReadableStream ?input) = Inr (map JObject records)"
    and r2: "list_all2
        (\<lambda>record part.
           distinct (map fst record) \<and>
           fst ` set record = fst ` set (spec_pairs ''\<newline>'' '':'' part) \<and>
           (length '':'' \<le> 1 \<longrightarrow> map_of record = map_of (rev (spec_pairs ''\<newline>'' '':'' part))))
        records (filter (\<lambda>part. spec_pairs ''\<newline>'' '':'' part \<noteq> []) ?parts)"
    by blast
  from r1 out have "map JObject records = map JObject ?R" by simp
  moreover have "inj JObject" by (rule injI) simp
  ultimately have "records = ?R" by (simp only: inj_map_eq_map)
  with r2 wp have "list_all2
        (\<lambda>record part. map_of record = map_of (rev (spec_pairs ''\<newline>'' '':'' part))) ?R ?with_pairs"
    by (simp add: list_all2_conv_all_nth)
  with out wp show ?thesis by (intro conjI)
qed

text \<open>
  The claim as stated fails: the text \<^verbatim>\<open>hello\n\n\<close> has one part that is not white
  space, and the pipeline emits no record for it.
\<close>

theorem part_without_field_gives_no_record:
  "filter (\<lambda>p. trim p \<noteq> []) (split_js (concat [''hello\<newline>\<newline>'']) DEFAULT_STREAM_SEPARATOR) =
     [''hello'']
   \<and> XStream id all_callbacks (ReadableStream [''hello\<newline>\<newline>'']) = Inr []"
  by code_simp

end
